theory Spec2Isabelle
  imports Main "HOL-Library.AList"
begin

section \<open>Text, characters and the string methods the tools use\<close>

text \<open>
  A Python \<open>str\<close> is a sequence of code points. The model represents a text as a
  \<^typ>\<open>string\<close> whose characters are the code points below 256 (ASCII and Latin-1);
  every character the tools' patterns name is in that range. \<open>length\<close> counts
  code points, as Python's \<open>len\<close> does.
\<close>

definition code :: "char \<Rightarrow> nat" where
  "code c = of_char c"

definition is_space :: "char \<Rightarrow> bool" where
  \<comment> \<open>\<open>\s\<close> of \<open>re\<close> on \<open>str\<close>, and \<open>str.isspace\<close>, below code point 256\<close>
  "is_space c = (let n = code c in
     (9 \<le> n \<and> n \<le> 13) \<or> (28 \<le> n \<and> n \<le> 32) \<or> n = 133 \<or> n = 160)"

definition is_decimal :: "char \<Rightarrow> bool" where
  \<comment> \<open>\<open>\d\<close> of \<open>re\<close> on \<open>str\<close>, below code point 256\<close>
  "is_decimal c = (let n = code c in 48 \<le> n \<and> n \<le> 57)"

definition is_digit_char :: "char \<Rightarrow> bool" where
  \<comment> \<open>the characters \<open>str.isdigit\<close> accepts, below code point 256: also the superscripts 1, 2, 3\<close>
  "is_digit_char c = (let n = code c in (48 \<le> n \<and> n \<le> 57) \<or> n = 178 \<or> n = 179 \<or> n = 185)"

definition is_word :: "char \<Rightarrow> bool" where
  \<comment> \<open>\<open>\w\<close> of \<open>re\<close> on \<open>str\<close>, below code point 256\<close>
  "is_word c = (let n = code c in
     (48 \<le> n \<and> n \<le> 57) \<or> (65 \<le> n \<and> n \<le> 90) \<or> n = 95 \<or> (97 \<le> n \<and> n \<le> 122) \<or>
     n = 170 \<or> n = 178 \<or> n = 179 \<or> n = 181 \<or> n = 185 \<or> n = 186 \<or>
     (188 \<le> n \<and> n \<le> 190) \<or> (192 \<le> n \<and> n \<le> 214) \<or> (216 \<le> n \<and> n \<le> 246) \<or>
     (248 \<le> n \<and> n \<le> 255))"

definition newline :: char where
  "newline = CHR 0x0A"

definition not_newline :: "char \<Rightarrow> bool" where
  \<comment> \<open>\<open>.\<close> of \<open>re\<close> without \<open>DOTALL\<close>\<close>
  "not_newline c = (c \<noteq> newline)"

definition ascii_lower :: "char \<Rightarrow> char" where
  \<comment> \<open>the lower-case form of an ASCII capital letter; any other character is unchanged\<close>
  "ascii_lower c =
     (case map_of (zip ''ABCDEFGHIJKLMNOPQRSTUVWXYZ'' ''abcdefghijklmnopqrstuvwxyz'') c of
        Some l \<Rightarrow> l
      | None \<Rightarrow> c)"

definition strip :: "string \<Rightarrow> string" where
  \<comment> \<open>\<open>str.strip()\<close>\<close>
  "strip s = rev (dropWhile is_space (rev (dropWhile is_space s)))"

definition startswith :: "string \<Rightarrow> string \<Rightarrow> bool" where
  \<comment> \<open>\<open>s.startswith(p)\<close>\<close>
  "startswith s p = (take (length p) s = p)"

fun contains :: "string \<Rightarrow> string \<Rightarrow> bool" where
  \<comment> \<open>\<open>p in s\<close>\<close>
  "contains [] p = (p = [])"
| "contains (c # s) p = (startswith (c # s) p \<or> contains s p)"

definition slice :: "string \<Rightarrow> nat \<Rightarrow> nat \<Rightarrow> string" where
  \<comment> \<open>\<open>s[i:j]\<close> for non-negative \<open>i\<close> and \<open>j\<close>\<close>
  "slice s i j = drop i (take j s)"

fun split_on :: "char \<Rightarrow> string \<Rightarrow> string list" where
  \<comment> \<open>\<open>s.split(sep)\<close> for a separator of one character\<close>
  "split_on sep [] = [[]]"
| "split_on sep (c # s) =
     (if c = sep then [] # split_on sep s
      else (case split_on sep s of [] \<Rightarrow> [[c]] | w # ws \<Rightarrow> (c # w) # ws))"

fun join :: "string \<Rightarrow> string list \<Rightarrow> string" where
  \<comment> \<open>\<open>sep.join(xs)\<close>\<close>
  "join sep [] = []"
| "join sep [x] = x"
| "join sep (x # y # ys) = x @ sep @ join sep (y # ys)"

definition isdigit :: "string \<Rightarrow> bool" where
  \<comment> \<open>\<open>str.isdigit()\<close>\<close>
  "isdigit s = (s \<noteq> [] \<and> list_all is_digit_char s)"

definition digit_char :: "nat \<Rightarrow> char" where
  "digit_char d = char_of (48 + d)"

fun str_nat :: "nat \<Rightarrow> string" where
  \<comment> \<open>the decimal text of a non-negative integer, as an f-string prints it\<close>
  "str_nat n = (if n < 10 then [digit_char n] else str_nat (n div 10) @ [digit_char (n mod 10)])"

declare str_nat.simps [simp del]

section \<open>Regular expressions: the backtracking matcher of \<open>re\<close>\<close>

text \<open>
  The patterns of both tools use literals, character classes, repetition of a character
  class (greedy or lazy, with a minimal count), optional groups, alternation, capturing
  groups and anchors. \<open>rx_run\<close> lists the states a pattern can reach from a position,
  in the order in which a backtracking matcher tries them: the first state of the list is
  the match that \<open>re\<close> reports.
\<close>

type_synonym caps = "nat \<Rightarrow> (nat \<times> nat) option"

type_synonym mstate = "nat \<times> caps"

datatype rx =
    Lit string
  | LitI string
  | Rep bool nat "char \<Rightarrow> bool"
  | Opt rx
  | Seq rx rx
  | Alt rx rx
  | Grp nat rx
  | Bol
  | Bos
  | Eos

fun rx_run :: "rx \<Rightarrow> string \<Rightarrow> mstate \<Rightarrow> mstate list" where
  "rx_run (Lit l) t (i, c) =
     (if take (length l) (drop i t) = l then [(i + length l, c)] else [])"
| "rx_run (LitI l) t (i, c) =
     (if map ascii_lower (take (length l) (drop i t)) = map ascii_lower l
      then [(i + length l, c)] else [])"
| "rx_run (Rep greedy m P) t (i, c) =
     (let n = length (takeWhile P (drop i t));
          ks = [m ..< Suc n]
      in map (\<lambda>k. (i + k, c)) (if greedy then rev ks else ks))"
| "rx_run (Opt r) t st = rx_run r t st @ [st]"
| "rx_run (Seq a b) t st = concat (map (rx_run b t) (rx_run a t st))"
| "rx_run (Alt a b) t st = rx_run a t st @ rx_run b t st"
| "rx_run (Grp g r) t (i, c) = map (\<lambda>(j, c'). (j, c'(g \<mapsto> (i, j)))) (rx_run r t (i, c))"
| "rx_run Bol t (i, c) =
     (if i = 0 \<or> (i \<le> length t \<and> t ! (i - 1) = newline) then [(i, c)] else [])"
| "rx_run Bos t (i, c) = (if i = 0 then [(i, c)] else [])"
| "rx_run Eos t (i, c) =
     (if i = length t \<or> (Suc i = length t \<and> t ! i = newline) then [(i, c)] else [])"

fun seqs :: "rx list \<Rightarrow> rx" where
  "seqs [] = Lit []"
| "seqs [r] = r"
| "seqs (r # rs) = Seq r (seqs rs)"

record rmatch =
  m_start :: nat
  m_end :: nat
  m_caps :: caps

definition rx_match_at :: "rx \<Rightarrow> string \<Rightarrow> nat \<Rightarrow> rmatch option" where
  "rx_match_at r t i =
     (case rx_run r t (i, Map.empty) of
        [] \<Rightarrow> None
      | (e, c) # _ \<Rightarrow> Some \<lparr>m_start = i, m_end = e, m_caps = c\<rparr>)"

fun first_match :: "rx \<Rightarrow> string \<Rightarrow> nat list \<Rightarrow> rmatch option" where
  "first_match r t [] = None"
| "first_match r t (i # is) =
     (case rx_match_at r t i of Some m \<Rightarrow> Some m | None \<Rightarrow> first_match r t is)"

definition rx_search_from :: "rx \<Rightarrow> string \<Rightarrow> nat \<Rightarrow> rmatch option" where
  \<comment> \<open>the leftmost match that starts at position \<open>pos\<close> or later\<close>
  "rx_search_from r t pos = first_match r t [pos ..< Suc (length t)]"

definition rx_search :: "rx \<Rightarrow> string \<Rightarrow> rmatch option" where
  \<comment> \<open>\<open>re.search\<close>\<close>
  "rx_search r t = rx_search_from r t 0"

function rx_finditer_from :: "rx \<Rightarrow> string \<Rightarrow> nat \<Rightarrow> rmatch list" where
  "rx_finditer_from r t pos =
     (if length t < pos then []
      else (case rx_search_from r t pos of
              None \<Rightarrow> []
            | Some m \<Rightarrow> m # rx_finditer_from r t (max (m_end m) (Suc pos))))"
  by pat_completeness auto
termination
  by (relation "measure (\<lambda>(r, t, pos). Suc (length t) - pos)") auto

declare rx_finditer_from.simps [simp del]

definition rx_finditer :: "rx \<Rightarrow> string \<Rightarrow> rmatch list" where
  \<comment> \<open>\<open>re.finditer\<close>: the non-overlapping matches, left to right. No pattern of the tools
      matches the empty string, so every search resumes where the last match ended.\<close>
  "rx_finditer r t = rx_finditer_from r t 0"

definition group0 :: "string \<Rightarrow> rmatch \<Rightarrow> string" where
  \<comment> \<open>\<open>match.group(0)\<close>\<close>
  "group0 t m = slice t (m_start m) (m_end m)"

definition group :: "string \<Rightarrow> rmatch \<Rightarrow> nat \<Rightarrow> string" where
  \<comment> \<open>\<open>match.group(g)\<close> of a group that took part in the match\<close>
  "group t m g = (case m_caps m g of Some (s, e) \<Rightarrow> slice t s e | None \<Rightarrow> [])"

definition rx_findall0 :: "rx \<Rightarrow> string \<Rightarrow> string list" where
  \<comment> \<open>\<open>re.findall\<close> of a pattern without groups: the matched texts\<close>
  "rx_findall0 r t = map (group0 t) (rx_finditer r t)"

definition rx_findall1 :: "rx \<Rightarrow> string \<Rightarrow> string list" where
  \<comment> \<open>\<open>re.findall\<close> of a pattern with one group: the texts of the group\<close>
  "rx_findall1 r t = map (\<lambda>m. group t m 1) (rx_finditer r t)"

fun sub_pieces :: "string \<Rightarrow> nat \<Rightarrow> rmatch list \<Rightarrow> string" where
  "sub_pieces t pos [] = drop pos t"
| "sub_pieces t pos (m # ms) = slice t pos (m_start m) @ sub_pieces t (m_end m) ms"

definition rx_sub_empty :: "rx \<Rightarrow> string \<Rightarrow> string" where
  \<comment> \<open>\<open>re.sub(pattern, '', t)\<close>\<close>
  "rx_sub_empty r t = sub_pieces t 0 (rx_finditer r t)"

fun split_pieces :: "string \<Rightarrow> nat \<Rightarrow> rmatch list \<Rightarrow> string list" where
  "split_pieces t pos [] = [drop pos t]"
| "split_pieces t pos (m # ms) =
     slice t pos (m_start m) # group t m 1 # split_pieces t (m_end m) ms"

definition rx_split1 :: "rx \<Rightarrow> string \<Rightarrow> string list" where
  \<comment> \<open>\<open>re.split\<close> of a pattern with one group: the texts between the matches, with the
      group's text after each\<close>
  "rx_split1 r t = split_pieces t 0 (rx_finditer r t)"

section \<open>The escape decoder of the standard library\<close>

text \<open>
  Both tools decode a string payload with \<open>codecs.decode(s, 'unicode_escape')\<close>. The
  codec is part of the standard library, not of the tools; it is modelled here from its
  documented behaviour. Given a \<open>str\<close>, it first encodes the text as UTF-8 and then
  reads the bytes: a byte other than a backslash yields the code point of the same number,
  a backslash starts an escape. The result may hold code points of any size, so it is a
  list of numbers. The table of Unicode character names, used by the escape \<open>\N{...}\<close>,
  is a parameter.
\<close>

datatype decode_error =
    BackslashAtEnd
  | TruncatedX
  | TruncatedU4
  | TruncatedU8
  | IllegalCharacter
  | MalformedN
  | UnknownName

definition utf8_encode :: "string \<Rightarrow> char list" where
  "utf8_encode s = concat (map (\<lambda>c. let n = code c in
       if n < 128 then [c] else [char_of (192 + n div 64), char_of (128 + n mod 64)]) s)"

definition backslash :: char where
  "backslash = CHR 0x5C"

definition is_octal :: "char \<Rightarrow> bool" where
  "is_octal c = (48 \<le> code c \<and> code c \<le> 55)"

definition hex_value :: "char \<Rightarrow> nat option" where
  "hex_value c = (let n = code c in
     if 48 \<le> n \<and> n \<le> 57 then Some (n - 48)
     else if 97 \<le> n \<and> n \<le> 102 then Some (n - 87)
     else if 65 \<le> n \<and> n \<le> 70 then Some (n - 55)
     else None)"

fun hex_number :: "nat \<Rightarrow> char list \<Rightarrow> nat option" where
  \<comment> \<open>the value of a sequence of hexadecimal digits, \<open>None\<close> when one is no digit\<close>
  "hex_number acc [] = Some acc"
| "hex_number acc (c # cs) =
     (case hex_value c of None \<Rightarrow> None | Some d \<Rightarrow> hex_number (acc * 16 + d) cs)"

definition simple_escape :: "char \<Rightarrow> nat option" where
  "simple_escape c =
     (if c = backslash then Some 92
      else if c = CHR 0x27 then Some 39
      else if c = CHR 0x22 then Some 34
      else if c = CHR ''b'' then Some 8
      else if c = CHR ''f'' then Some 12
      else if c = CHR ''t'' then Some 9
      else if c = CHR ''n'' then Some 10
      else if c = CHR ''r'' then Some 13
      else if c = CHR ''v'' then Some 11
      else if c = CHR ''a'' then Some 7
      else None)"

definition octal_digits :: "char list \<Rightarrow> char list" where
  \<comment> \<open>the octal digits of an escape \<open>\OOO\<close>: at most three\<close>
  "octal_digits bs = takeWhile is_octal (take 3 bs)"

definition octal_number :: "char list \<Rightarrow> nat" where
  "octal_number ds = foldl (\<lambda>acc d. acc * 8 + (code d - 48)) 0 ds"

definition hex_escape_error :: "nat \<Rightarrow> decode_error" where
  "hex_escape_error cnt = (if cnt = 2 then TruncatedX else if cnt = 4 then TruncatedU4 else TruncatedU8)"

function unicode_escape_decode :: "(string \<Rightarrow> nat option) \<Rightarrow> char list \<Rightarrow> decode_error + nat list" where
  "unicode_escape_decode getcode [] = Inr []"
| "unicode_escape_decode getcode (b # bs) =
     (if b \<noteq> backslash then map_sum id ((#) (code b)) (unicode_escape_decode getcode bs)
      else (case bs of
          [] \<Rightarrow> Inl BackslashAtEnd
        | c # rest \<Rightarrow>
            if c = newline then unicode_escape_decode getcode rest
            else (case simple_escape c of
                Some v \<Rightarrow> map_sum id ((#) v) (unicode_escape_decode getcode rest)
              | None \<Rightarrow>
                  if is_octal c then
                    (let ds = octal_digits (c # rest) in
                     map_sum id ((#) (octal_number ds))
                       (unicode_escape_decode getcode (drop (length ds) (c # rest))))
                  else if c = CHR ''x'' \<or> c = CHR ''u'' \<or> c = CHR ''U'' then
                    (let cnt = (if c = CHR ''x'' then 2 else if c = CHR ''u'' then 4 else 8 :: nat) in
                     if length rest < cnt then Inl (hex_escape_error cnt)
                     else (case hex_number 0 (take cnt rest) of
                         None \<Rightarrow> Inl (hex_escape_error cnt)
                       | Some v \<Rightarrow>
                           if v > 1114111 then Inl IllegalCharacter
                           else map_sum id ((#) v) (unicode_escape_decode getcode (drop cnt rest))))
                  else if c = CHR ''N'' then
                    (case rest of
                        [] \<Rightarrow> Inl MalformedN
                      | ob # after \<Rightarrow>
                          if ob \<noteq> CHR 0x7B then Inl MalformedN
                          else (let nm = takeWhile (\<lambda>x. x \<noteq> CHR 0x7D) after in
                                if length nm = length after then Inl MalformedN
                                else if nm = [] then Inl MalformedN
                                else (case getcode nm of
                                    None \<Rightarrow> Inl UnknownName
                                  | Some v \<Rightarrow> map_sum id ((#) v)
                                      (unicode_escape_decode getcode (drop (Suc (length nm)) after)))))
                  else map_sum id (\<lambda>r. 92 # code c # r) (unicode_escape_decode getcode rest))))"
  by pat_completeness auto
termination
  by (relation "measure (\<lambda>(g, bs). length bs)") (auto simp: octal_digits_def)

declare unicode_escape_decode.simps [simp del]

definition codecs_decode :: "(string \<Rightarrow> nat option) \<Rightarrow> string \<Rightarrow> decode_error + nat list" where
  \<comment> \<open>\<open>codecs.decode(s, 'unicode_escape')\<close>: \<open>Inl\<close> is the \<open>UnicodeDecodeError\<close> raised\<close>
  "codecs_decode getcode s = unicode_escape_decode getcode (utf8_encode s)"

definition raw :: "string \<Rightarrow> nat list" where
  \<comment> \<open>a text of the model as a list of code points\<close>
  "raw s = map code s"

section \<open>The report tool: \<open>decompile_analysis.py\<close>\<close>

record FunctionInfo =
  name :: string
  params :: "string list"
  return_type :: string
  instructions :: "string list"
  basic_blocks :: nat
  complexity :: nat

record ObfuscationMetrics =
  total_functions :: nat
  obfuscated_functions :: nat
  string_encryptions :: nat
  opaque_predicates :: nat
  bogus_code_blocks :: nat
  fake_loops :: nat
  virtualized_functions :: nat
  control_flow_obfuscations :: nat
  total_instructions :: nat
  obfuscated_instructions :: nat

definition dquote :: char where
  "dquote = CHR 0x22"

subsection \<open>\<open>LLVMIRParser\<close>\<close>

definition globals_pattern :: rx where
  \<comment> \<open>\<open>@(\w+)\s*=\s*(?:internal\s+)?(?:private\s+)?(?:unnamed_addr\s+)?(?:global|constant)\<close>\<close>
  "globals_pattern = seqs
     [Lit ''@'', Grp 1 (Rep True 1 is_word), Rep True 0 is_space, Lit ''='', Rep True 0 is_space,
      Opt (seqs [Lit ''internal'', Rep True 1 is_space]),
      Opt (seqs [Lit ''private'', Rep True 1 is_space]),
      Opt (seqs [Lit ''unnamed_addr'', Rep True 1 is_space]),
      Alt (Lit ''global'') (Lit ''constant'')]"

definition extract_globals :: "string \<Rightarrow> string list" where
  "extract_globals content = rx_findall1 globals_pattern content"

definition strings_pattern :: rx where
  \<comment> \<open>\<open>c"([^"]*)"\<close>\<close>
  "strings_pattern = seqs
     [Lit [CHR ''c'', dquote], Grp 1 (Rep True 0 (\<lambda>c. c \<noteq> dquote)), Lit [dquote]]"

definition decode_string :: "(string \<Rightarrow> nat option) \<Rightarrow> string \<Rightarrow> nat list" where
  \<comment> \<open>\<open>try: return codecs.decode(s, 'unicode_escape')\<close>, \<open>except: return s\<close>\<close>
  "decode_string getcode s =
     (case codecs_decode getcode s of Inr decoded \<Rightarrow> decoded | Inl err \<Rightarrow> raw s)"

definition extract_strings :: "(string \<Rightarrow> nat option) \<Rightarrow> string \<Rightarrow> nat list list" where
  "extract_strings getcode content =
     map (decode_string getcode) (filter (\<lambda>m. m \<noteq> []) (rx_findall1 strings_pattern content))"

definition func_pattern :: rx where
  \<comment> \<open>\<open>define\s+(?:dso_local\s+)?(?:internal\s+)?([^@]+?)\s+@(\w+)\s*\(([^)]*)\)\s*\{\<close>\<close>
  "func_pattern = seqs
     [Lit ''define'', Rep True 1 is_space,
      Opt (seqs [Lit ''dso_local'', Rep True 1 is_space]),
      Opt (seqs [Lit ''internal'', Rep True 1 is_space]),
      Grp 1 (Rep False 1 (\<lambda>c. c \<noteq> CHR ''@'')), Rep True 1 is_space,
      Lit ''@'', Grp 2 (Rep True 1 is_word), Rep True 0 is_space,
      Lit ''('', Grp 3 (Rep True 0 (\<lambda>c. c \<noteq> CHR '')'')), Lit '')'', Rep True 0 is_space,
      Lit ''{'']"

function brace_scan :: "string \<Rightarrow> nat \<Rightarrow> int \<Rightarrow> nat \<times> int" where
  \<comment> \<open>the \<open>while\<close> loop that looks for the end of a body; returns the final
      \<open>end_pos\<close> and \<open>brace_count\<close>\<close>
  "brace_scan content end_pos brace_count =
     (if end_pos < length content \<and> brace_count > 0 then
        brace_scan content (end_pos + 1)
          (if content ! end_pos = CHR ''{'' then brace_count + 1
           else if content ! end_pos = CHR ''}'' then brace_count - 1
           else brace_count)
      else (end_pos, brace_count))"
  by pat_completeness auto
termination
  by (relation "measure (\<lambda>(content, end_pos, brace_count). length content - end_pos)") auto

declare brace_scan.simps [simp del]

definition function_body :: "string \<Rightarrow> nat \<Rightarrow> string" where
  \<comment> \<open>\<open>content[start_pos:end_pos-1]\<close>; \<open>start_pos\<close> is the end of a header match, so
      \<open>end_pos\<close> is at least 1\<close>
  "function_body content start_pos =
     (let end_pos = fst (brace_scan content start_pos 1)
      in slice content start_pos (end_pos - 1))"

definition label_pattern :: rx where
  \<comment> \<open>\<open>^\s*\d+:\<close> with \<open>re.MULTILINE\<close>\<close>
  "label_pattern = seqs [Bol, Rep True 0 is_space, Rep True 1 is_decimal, Lit '':'']"

definition instr_pattern :: rx where
  \<comment> \<open>\<open>^\s*[^;]+\<close> with \<open>re.MULTILINE\<close>\<close>
  "instr_pattern = seqs [Bol, Rep True 0 is_space, Rep True 1 (\<lambda>c. c \<noteq> CHR '';'')]"

definition param_name_pattern :: rx where
  \<comment> \<open>\<open>%\w+\<close>\<close>
  "param_name_pattern = seqs [Lit ''%'', Rep True 1 is_word]"

definition parse_params :: "string \<Rightarrow> string list" where
  "parse_params params_str =
     (if params_str = [] then []
      else concat (map (\<lambda>param0.
             let param = strip param0 in
             if param \<noteq> [] then
               (case rx_search param_name_pattern param of
                  Some m \<Rightarrow> [group0 param m]
                | None \<Rightarrow> [param])
             else [])
           (split_on CHR '','' params_str)))"

definition count_basic_blocks :: "string \<Rightarrow> nat" where
  "count_basic_blocks func_body = length (rx_findall0 label_pattern func_body)"

definition body_instructions :: "string \<Rightarrow> string list" where
  "body_instructions func_body =
     map strip (filter (\<lambda>i. strip i \<noteq> [] \<and> \<not> startswith (strip i) '';'')
                  (rx_findall0 instr_pattern func_body))"

definition function_info :: "string \<Rightarrow> rmatch \<Rightarrow> FunctionInfo" where
  \<comment> \<open>the body of the loop over the header matches, up to the store into the dictionary\<close>
  "function_info content m =
     (let return_type = strip (group content m 1);
          func_name = group content m 2;
          params = strip (group content m 3);
          func_body = function_body content (m_end m);
          basic_blocks = count_basic_blocks func_body;
          instructions = body_instructions func_body;
          complexity = length instructions + basic_blocks * 2
      in \<lparr>name = func_name, params = parse_params params, return_type = return_type,
          instructions = instructions, basic_blocks = basic_blocks, complexity = complexity\<rparr>)"

definition extract_functions :: "string \<Rightarrow> (string \<times> FunctionInfo) list" where
  \<comment> \<open>\<open>self.functions\<close>, a dictionary in insertion order: a store under a key that is
      present replaces the value and keeps the key's place\<close>
  "extract_functions content =
     fold (\<lambda>m functions. AList.update (group content m 2) (function_info content m) functions)
       (rx_finditer func_pattern content) []"

definition set_count :: "rx \<Rightarrow> string \<Rightarrow> string \<Rightarrow> (string \<rightharpoonup> nat) \<Rightarrow> (string \<rightharpoonup> nat)" where
  \<comment> \<open>\<open>if re.search(p, content): patterns[key] = len(re.findall(p, content))\<close>\<close>
  "set_count r key content patterns =
     (if rx_search r content \<noteq> None then patterns(key \<mapsto> length (rx_findall0 r content))
      else patterns)"

definition any_char_star :: rx where
  \<comment> \<open>\<open>.*\<close>\<close>
  "any_char_star = Rep True 0 not_newline"

definition detect_obfuscation_patterns :: "string \<Rightarrow> (string \<rightharpoonup> nat)" where
  "detect_obfuscation_patterns content =
     (set_count (Alt (seqs [LitI ''switch'', any_char_star, LitI ''dispatch'']) (LitI ''flatten''))
        ''control_flow'' content
     (set_count (Alt (LitI ''@__obf_decrypt'') (Alt (LitI ''@__vm_'') (LitI ''bytecode'')))
        ''virtualization'' content
     (set_count (Alt (LitI ''fake'') (seqs [LitI ''dummy'', any_char_star, LitI ''loop'']))
        ''fake_loops'' content
     (set_count (Alt (Lit ''0xDEADBEEF'') (Lit ''0xCAFEBABE''))
        ''bogus_code'' content
     (set_count (Alt (LitI ''opaque'') (LitI ''obfuscated''))
        ''opaque_predicates'' content
     (set_count (Lit ''@__obf_key'')
        ''string_encryption'' content
      Map.empty))))))"

definition get_or :: "(string \<rightharpoonup> nat) \<Rightarrow> string \<Rightarrow> nat \<Rightarrow> nat" where
  \<comment> \<open>\<open>d.get(key, default)\<close>\<close>
  "get_or d key dflt = (case d key of Some v \<Rightarrow> v | None \<Rightarrow> dflt)"

definition get_metrics ::
  "(string \<times> FunctionInfo) list \<Rightarrow> (string \<rightharpoonup> nat) \<Rightarrow> ObfuscationMetrics" where
  "get_metrics functions obfuscation_patterns =
     (let total_instructions = sum_list (map (\<lambda>f. length (instructions f)) (map snd functions))
      in \<lparr>total_functions = length functions,
          obfuscated_functions = length (filter (\<lambda>f. complexity f > 10) (map snd functions)),
          string_encryptions = get_or obfuscation_patterns ''string_encryption'' 0,
          opaque_predicates = get_or obfuscation_patterns ''opaque_predicates'' 0,
          bogus_code_blocks = get_or obfuscation_patterns ''bogus_code'' 0,
          fake_loops = get_or obfuscation_patterns ''fake_loops'' 0,
          virtualized_functions = get_or obfuscation_patterns ''virtualization'' 0,
          control_flow_obfuscations = get_or obfuscation_patterns ''control_flow'' 0,
          total_instructions = total_instructions,
          obfuscated_instructions = total_instructions\<rparr>)"

definition listing_metrics :: "string \<Rightarrow> ObfuscationMetrics" where
  \<comment> \<open>\<open>parse()\<close> followed by \<open>get_metrics()\<close>, as the report generator calls them\<close>
  "listing_metrics content =
     get_metrics (extract_functions content) (detect_obfuscation_patterns content)"

subsection \<open>\<open>CDecompiler\<close>\<close>

definition assign_pattern :: rx where
  \<comment> \<open>\<open>%\d+\s*=\s*\<close>\<close>
  "assign_pattern = seqs
     [Lit ''%'', Rep True 1 is_decimal, Rep True 0 is_space, Lit ''='', Rep True 0 is_space]"

definition call_pattern :: rx where
  \<comment> \<open>\<open>call\s+[^@]*@(\w+)\<close>\<close>
  "call_pattern = seqs
     [Lit ''call'', Rep True 1 is_space, Rep True 0 (\<lambda>c. c \<noteq> CHR ''@''), Lit ''@'',
      Grp 1 (Rep True 1 is_word)]"

definition ret_pattern :: rx where
  \<comment> \<open>\<open>ret\s+(.+)\<close>\<close>
  "ret_pattern = seqs [Lit ''ret'', Rep True 1 is_space, Grp 1 (Rep True 1 not_newline)]"

definition arith_pattern :: rx where
  \<comment> \<open>\<open>(add|sub|mul)\s+(.+?),\s*(.+)\<close>\<close>
  "arith_pattern = seqs
     [Grp 1 (Alt (Lit ''add'') (Alt (Lit ''sub'') (Lit ''mul''))), Rep True 1 is_space,
      Grp 2 (Rep False 1 not_newline), Lit '','', Rep True 0 is_space,
      Grp 3 (Rep True 1 not_newline)]"

definition op_symbol :: "string \<Rightarrow> string" where
  \<comment> \<open>\<open>{'add': '+', 'sub': '-', 'mul': '*'}[op]\<close>, for the three keys the pattern can give\<close>
  "op_symbol opn = (if opn = ''add'' then ''+'' else if opn = ''sub'' then ''-'' else ''*'')"

definition convert_instruction :: "string \<Rightarrow> string option" where
  \<comment> \<open>\<open>None\<close> is Python's \<open>None\<close>: the instruction is left out\<close>
  "convert_instruction instr0 =
     (let instr = rx_sub_empty assign_pattern instr0 in
      case (if contains instr ''call'' then rx_search call_pattern instr else None) of
        Some m \<Rightarrow>
          (let func_name = group instr m 1 in
           if startswith func_name ''llvm.'' then None
           else Some (func_name @ ''(...);''))
      | None \<Rightarrow>
      (case (if contains instr ''ret'' then rx_search ret_pattern instr else None) of
        Some m \<Rightarrow>
          (let v = strip (group instr m 1) in
           if v = ''void'' \<or> v = [] then Some ''return;''
           else Some (''return '' @ v @ '';''))
      | None \<Rightarrow>
      (case (if contains instr ''add'' \<or> contains instr ''sub'' \<or> contains instr ''mul''
             then rx_search arith_pattern instr else None) of
        Some m \<Rightarrow>
          Some (''// '' @ group instr m 2 @ '' '' @ op_symbol (group instr m 1) @ '' ''
                @ group instr m 3)
      | None \<Rightarrow>
          if contains instr ''br'' then Some ''// branch instruction''
          else if contains instr ''load'' \<or> contains instr ''store''
          then Some ''// memory operation''
          else None)))"

fun first_type :: "(string \<times> string) list \<Rightarrow> string \<Rightarrow> string option" where
  \<comment> \<open>\<open>for llvm, c in type_map.items(): if llvm in llvm_type: return c\<close>\<close>
  "first_type [] llvm_type = None"
| "first_type ((llvm, c) # rest) llvm_type =
     (if contains llvm_type llvm then Some c else first_type rest llvm_type)"

definition convert_type :: "string \<Rightarrow> string" where
  "convert_type llvm_type =
     (case first_type [(''i32'', ''int''), (''i64'', ''long''), (''i8'', ''char''),
                       (''void'', ''void''), (''float'', ''float''), (''double'', ''double'')]
             llvm_type of
        Some c \<Rightarrow> c
      | None \<Rightarrow>
          if contains llvm_type ''ptr'' \<or> contains llvm_type ''*'' then ''void*'' else ''int'')"

definition lowered_lines :: "string list \<Rightarrow> string list" where
  \<comment> \<open>the loop over \<open>func_info.instructions[:20]\<close>\<close>
  "lowered_lines instrs =
     concat (map (\<lambda>instr. case convert_instruction instr of
                             Some c_instr \<Rightarrow> if c_instr \<noteq> [] then [''    '' @ c_instr] else []
                           | None \<Rightarrow> [])
                 (take 20 instrs))"

definition summary_line :: "string list \<Rightarrow> string list" where
  \<comment> \<open>\<open>if len(func_info.instructions) > 20: lines.append(...)\<close>\<close>
  "summary_line instrs =
     (if length instrs > 20
      then [''    // ... '' @ str_nat (length instrs - 20) @ '' more instructions ...'']
      else [])"

definition signature_line :: "FunctionInfo \<Rightarrow> string" where
  "signature_line func_info =
     convert_type (return_type func_info) @ '' '' @ name func_info @ ''(''
       @ join '', '' (map (\<lambda>p. if \<not> startswith p ''%'' then ''int '' @ p else ''int '' @ drop 1 p)
                          (params func_info))
       @ '') {''"

definition decompile_function_lines :: "FunctionInfo \<Rightarrow> string list" where
  \<comment> \<open>the list \<open>lines\<close> of \<open>decompile_function\<close> before it is joined\<close>
  "decompile_function_lines func_info =
     [signature_line func_info] @ lowered_lines (instructions func_info)
       @ summary_line (instructions func_info) @ [''}'']"

definition decompile_function :: "FunctionInfo \<Rightarrow> string" where
  "decompile_function func_info = join [newline] (decompile_function_lines func_info)"

section \<open>The standalone converter: \<open>ir_to_c.py\<close>\<close>

text \<open>
  The converter has methods of the same names as the report tool; those of the converter
  carry the prefix \<open>irc_\<close> here, and the fields of its function entries the prefix \<open>c_\<close>.
\<close>

record c_function =
  c_return_type :: string
  c_params :: string
  c_body :: string
  c_name :: string

definition irc_strings_pattern :: rx where
  \<comment> \<open>\<open>@(\w+)\s*=\s*.*?c"([^"]*)"\<close>\<close>
  "irc_strings_pattern = seqs
     [Lit ''@'', Grp 1 (Rep True 1 is_word), Rep True 0 is_space, Lit ''='', Rep True 0 is_space,
      Rep False 0 not_newline, Lit [CHR ''c'', dquote], Grp 2 (Rep True 0 (\<lambda>c. c \<noteq> dquote)),
      Lit [dquote]]"

definition irc_extract_strings :: "(string \<Rightarrow> nat option) \<Rightarrow> string \<Rightarrow> (string \<times> nat list) list" where
  "irc_extract_strings getcode ir =
     fold (\<lambda>m strings.
             let nm = group ir m 1; encoded = group ir m 2 in
             (case codecs_decode getcode encoded of
                Inr decoded \<Rightarrow> AList.update nm decoded strings
              | Inl err \<Rightarrow> AList.update nm (raw encoded) strings))
       (rx_finditer irc_strings_pattern ir) []"

definition irc_function :: "string \<Rightarrow> rmatch \<Rightarrow> c_function" where
  "irc_function ir m =
     \<lparr>c_return_type = strip (group ir m 1), c_params = strip (group ir m 3),
      c_body = function_body ir (m_end m), c_name = group ir m 2\<rparr>"

definition irc_extract_functions :: "string \<Rightarrow> (string \<times> c_function) list" where
  "irc_extract_functions ir =
     fold (\<lambda>m functions.
             let func_name = group ir m 2 in
             if startswith func_name ''llvm.'' \<or> startswith func_name ''__'' then functions
             else AList.update func_name (irc_function ir m) functions)
       (rx_finditer func_pattern ir) []"

definition digits_pattern :: rx where
  \<comment> \<open>\<open>^\d+$\<close>\<close>
  "digits_pattern = seqs [Bos, Rep True 1 is_decimal, Eos]"

definition simplify_value :: "string \<Rightarrow> string" where
  "simplify_value v0 =
     (let v = strip v0 in
      if rx_match_at digits_pattern v 0 \<noteq> None then v
      else if startswith v ''%'' then (if length v > 1 then drop 1 v else ''var'')
      else if startswith v ''@'' then (if length v > 1 then drop 1 v else ''global'')
      else take 20 v)"

definition simplify_args :: "string \<Rightarrow> string" where
  "simplify_args args =
     (if strip args = [] then []
      else (let args_list = split_on CHR '','' args;
                simplified = map (\<lambda>arg. simplify_value (strip arg)) (take 5 args_list)
            in join '', '' (if length args_list > 5 then simplified @ [''...''] else simplified)))"

definition args_pattern :: rx where
  \<comment> \<open>\<open>\(([^)]*)\)\<close>\<close>
  "args_pattern = seqs [Lit ''('', Grp 1 (Rep True 0 (\<lambda>c. c \<noteq> CHR '')'')), Lit '')'']"

definition binary_pattern :: "string \<Rightarrow> rx" where
  \<comment> \<open>the literal operation name followed by \<open>\s+(.+?),\s*(.+)\<close>\<close>
  "binary_pattern opn = seqs
     [Lit opn, Rep True 1 is_space, Grp 1 (Rep False 1 not_newline), Lit '','',
      Rep True 0 is_space, Grp 2 (Rep True 1 not_newline)]"

fun binary_rules :: "(string \<times> string) list \<Rightarrow> string \<Rightarrow> string option" where
  \<comment> \<open>the loops over the arithmetic operations and over the comparisons: the first
      operation that occurs in the instruction and whose pattern matches gives the comment\<close>
  "binary_rules [] instr = None"
| "binary_rules ((opn, symbol) # rest) instr =
     (case (if contains instr opn then rx_search (binary_pattern opn) instr else None) of
        Some m \<Rightarrow>
          Some (''// '' @ simplify_value (group instr m 1) @ '' '' @ symbol @ '' ''
                @ simplify_value (group instr m 2))
      | None \<Rightarrow> binary_rules rest instr)"

definition irc_convert_instruction :: "string \<Rightarrow> string option" where
  "irc_convert_instruction instr0 =
     (let instr = rx_sub_empty assign_pattern instr0 in
      case (if contains instr ''ret'' then rx_search ret_pattern instr else None) of
        Some m \<Rightarrow>
          (let v = strip (group instr m 1) in
           if contains v ''void'' \<or> v = [] \<or> v = ''undef'' then Some ''return;''
           else Some (''return '' @ simplify_value v @ '';''))
      | None \<Rightarrow>
      (case (if contains instr ''call'' then rx_search call_pattern instr else None) of
        Some m \<Rightarrow>
          (let func = group instr m 1 in
           if startswith func ''llvm.'' then None
           else (case rx_search args_pattern instr of
                   Some args_match \<Rightarrow>
                     Some (func @ ''('' @ simplify_args (group instr args_match 1) @ '');'')
                 | None \<Rightarrow> Some (func @ ''();'')))
      | None \<Rightarrow>
      (case binary_rules [(''add'', ''+''), (''sub'', ''-''), (''mul'', ''*''),
                          (''udiv'', ''/''), (''sdiv'', ''/'')] instr of
        Some c \<Rightarrow> Some c
      | None \<Rightarrow>
      (case binary_rules [(''icmp eq'', ''==''), (''icmp ne'', ''!=''), (''icmp ult'', ''<''),
                          (''icmp ugt'', ''>'')] instr of
        Some c \<Rightarrow> Some c
      | None \<Rightarrow>
          if contains instr ''br'' then Some ''// branch''
          else if contains instr ''load'' \<or> contains instr ''store''
          then Some ''// memory operation''
          else if contains instr ''alloca'' then Some ''// local variable''
          else None))))"

definition block_split_pattern :: rx where
  \<comment> \<open>\<open>(\d+):\s*\n\<close>\<close>
  "block_split_pattern = seqs
     [Grp 1 (Rep True 1 is_decimal), Lit '':'', Rep True 0 is_space, Lit [newline]]"

definition block_lines :: "string \<Rightarrow> string list" where
  \<comment> \<open>the body of the loop over \<open>blocks\<close>: the lines one block appends\<close>
  "block_lines block =
     (if isdigit (strip block) then [''// Basic block '' @ block @ '':'']
      else concat (map (\<lambda>instr0.
             let instr = strip instr0 in
             if instr = [] \<or> startswith instr '';'' then []
             else (case irc_convert_instruction instr of
                     Some c_instr \<Rightarrow> if c_instr \<noteq> [] then [c_instr] else []
                   | None \<Rightarrow> []))
           (split_on newline block)))"

definition body_lines :: "string \<Rightarrow> string list" where
  \<comment> \<open>the list \<open>lines\<close> of \<open>_decompile_body\<close> when its loop ends\<close>
  "body_lines body = concat (map block_lines (rx_split1 block_split_pattern body))"

definition decompile_body :: "string \<Rightarrow> string list" where
  "decompile_body body = take 30 (body_lines body)"

section \<open>Notions used in the statements\<close>

definition defined_names :: "string \<Rightarrow> string set" where
  \<comment> \<open>the names of the function definitions a listing holds: the second group of every
      match of the header pattern\<close>
  "defined_names ir = (\<lambda>m. group ir m 2) ` set (rx_finditer func_pattern ir)"

definition skipped :: "string \<Rightarrow> bool" where
  \<comment> \<open>the guard of the converter's skip rule\<close>
  "skipped n = (startswith n ''llvm.'' \<or> startswith n ''__'')"

definition same_definition :: "FunctionInfo \<Rightarrow> c_function \<Rightarrow> bool" where
  \<comment> \<open>an entry of the report tool and an entry of the converter come from the same
      definition: same name, return type and parameter text, and the report tool's
      instructions and block count are those of the converter's body text\<close>
  "same_definition fi cf =
     (name fi = c_name cf \<and> return_type fi = c_return_type cf \<and>
      params fi = parse_params (c_params cf) \<and>
      instructions fi = body_instructions (c_body cf) \<and>
      basic_blocks fi = count_basic_blocks (c_body cf))"

fun note_key :: "'k \<Rightarrow> 'k list \<Rightarrow> 'k list" where
  \<comment> \<open>the keys of a dictionary after a store under \<open>k\<close>\<close>
  "note_key k ks = (if k \<in> set ks then ks else ks @ [k])"

definition is_label_line :: "string \<Rightarrow> bool" where
  \<comment> \<open>From the words of the specification, for comparison with the code: a block-label
      line is a bare integer followed by a colon\<close>
  "is_label_line l = (let s = strip l in
     s \<noteq> [] \<and> last s = CHR '':'' \<and> butlast s \<noteq> [] \<and> list_all is_decimal (butlast s))"

definition label_line_count :: "string \<Rightarrow> nat" where
  \<comment> \<open>From the words of the specification: the number \<open>B\<close> of block-label lines of a body\<close>
  "label_line_count body = length (filter is_label_line (split_on newline body))"

definition instruction_line_count :: "string \<Rightarrow> nat" where
  \<comment> \<open>From the words of the specification: the number \<open>N\<close> of lines of a body that are
      not blank, not a comment and not a block label\<close>
  "instruction_line_count body =
     length (filter (\<lambda>l. strip l \<noteq> [] \<and> \<not> startswith (strip l) '';'' \<and> \<not> is_label_line l)
               (split_on newline body))"

definition occurrences :: "string \<Rightarrow> string \<Rightarrow> nat" where
  \<comment> \<open>From the words of the specification: how many times a text contains a literal,
      that is, the number of places at which the literal starts\<close>
  "occurrences p t = length (filter (\<lambda>i. startswith (drop i t) p) [0 ..< length t])"

definition either_at :: "string \<Rightarrow> string \<Rightarrow> string \<Rightarrow> nat \<Rightarrow> bool" where
  \<comment> \<open>one of two literals starts at place \<open>i\<close> of the text\<close>
  "either_at a b t i = (startswith (drop i t) a \<or> startswith (drop i t) b)"

definition brace_delta :: "char \<Rightarrow> int" where
  \<comment> \<open>what one character adds to the brace depth\<close>
  "brace_delta c = (if c = CHR ''{'' then 1 else if c = CHR ''}'' then - 1 else 0)"

definition depth_after :: "string \<Rightarrow> nat \<Rightarrow> nat \<Rightarrow> int" where
  \<comment> \<open>the brace depth after the first \<open>k\<close> characters that follow an opening brace at
      \<open>start - 1\<close>: one, plus the opening and minus the closing braces among them\<close>
  "depth_after content start k = 1 + sum_list (map brace_delta (take k (drop start content)))"

fun no_group :: "nat \<Rightarrow> rx \<Rightarrow> bool" where
  \<comment> \<open>the pattern has no capturing group of number \<open>g\<close>\<close>
  "no_group g (Lit l) = True"
| "no_group g (LitI l) = True"
| "no_group g (Rep greedy m P) = True"
| "no_group g (Opt r) = no_group g r"
| "no_group g (Seq a b) = (no_group g a \<and> no_group g b)"
| "no_group g (Alt a b) = (no_group g a \<and> no_group g b)"
| "no_group g (Grp g' r) = (g' \<noteq> g \<and> no_group g r)"
| "no_group g Bol = True"
| "no_group g Bos = True"
| "no_group g Eos = True"

definition captured :: "string \<Rightarrow> (char \<Rightarrow> bool) \<Rightarrow> caps \<Rightarrow> nat \<Rightarrow> bool" where
  \<comment> \<open>group \<open>g\<close> holds a text that is not empty and whose characters are all in the
      class \<open>P\<close>\<close>
  "captured t P c g =
     (case c g of Some (s, e) \<Rightarrow> slice t s e \<noteq> [] \<and> list_all P (slice t s e) | None \<Rightarrow> False)"

section \<open>Properties\<close>

subsection \<open>The brace-depth scan\<close>

lemma brace_scan_step:
  "pos < length content \<Longrightarrow> 0 < depth \<Longrightarrow>
     brace_scan content pos depth =
     brace_scan content (Suc pos) (depth + brace_delta (content ! pos))"
  by (subst brace_scan.simps) (simp add: brace_delta_def)

lemma brace_scan_stop:
  "\<not> (pos < length content \<and> 0 < depth) \<Longrightarrow> brace_scan content pos depth = (pos, depth)"
  by (subst brace_scan.simps) auto

lemma brace_scan_first_zero:
  "brace_scan content p d0 = (e, d) \<Longrightarrow> 0 \<le> d0 \<Longrightarrow>
     p \<le> e \<and> e \<le> max p (length content)
     \<and> d = d0 + sum_list (map brace_delta (take (e - p) (drop p content)))
     \<and> (\<forall>k < e - p. 0 < d0 + sum_list (map brace_delta (take k (drop p content))))
     \<and> (d = 0 \<or> length content \<le> e)
     \<and> (p < length content \<and> 0 < d0 \<longrightarrow> p < e)"
proof (induction content p d0 rule: brace_scan.induct)
  case (1 content end_pos brace_count)
  show ?case
  proof (cases "end_pos < length content \<and> brace_count > 0")
    case True
    let ?d = "brace_count + brace_delta (content ! end_pos)"
    from True "1.prems"(1) have eq: "brace_scan content (end_pos + 1)
        (if content ! end_pos = CHR ''{'' then brace_count + 1
         else if content ! end_pos = CHR ''}'' then brace_count - 1 else brace_count) = (e, d)"
      by (subst (asm) brace_scan.simps) simp
    from True have nonneg: "0 \<le> (if content ! end_pos = CHR ''{'' then brace_count + 1
         else if content ! end_pos = CHR ''}'' then brace_count - 1 else brace_count)"
      by simp
    have dd: "(if content ! end_pos = CHR ''{'' then brace_count + 1
         else if content ! end_pos = CHR ''}'' then brace_count - 1 else brace_count) = ?d"
      by (simp add: brace_delta_def)
    from "1.IH"[OF True eq nonneg] have ih:
      "Suc end_pos \<le> e" "e \<le> max (Suc end_pos) (length content)"
      "d = ?d + sum_list (map brace_delta (take (e - Suc end_pos) (drop (Suc end_pos) content)))"
      "\<forall>k < e - Suc end_pos. 0 < ?d + sum_list (map brace_delta (take k (drop (Suc end_pos) content)))"
      "d = 0 \<or> length content \<le> e"
      unfolding dd Suc_eq_plus1[symmetric] by blast+
    from True have dr: "drop end_pos content = content ! end_pos # drop (Suc end_pos) content"
      by (simp add: Cons_nth_drop_Suc)
    from ih(1) have ek: "e - end_pos = Suc (e - Suc end_pos)" by simp
    have a: "d = brace_count + sum_list (map brace_delta (take (e - end_pos) (drop end_pos content)))"
      unfolding ek dr using ih(3) by simp
    have b: "\<forall>k < e - end_pos. 0 < brace_count + sum_list (map brace_delta (take k (drop end_pos content)))"
    proof (intro allI impI)
      fix k assume k: "k < e - end_pos"
      show "0 < brace_count + sum_list (map brace_delta (take k (drop end_pos content)))"
      proof (cases k)
        case 0
        with True show ?thesis by simp
      next
        case (Suc k')
        with k ek have "k' < e - Suc end_pos" by simp
        with ih(4) have "0 < ?d + sum_list (map brace_delta (take k' (drop (Suc end_pos) content)))"
          by blast
        then show ?thesis unfolding Suc dr by simp
      qed
    qed
    from ih(1,2) True have c: "end_pos \<le> e" "e \<le> max end_pos (length content)" "end_pos < e"
      by auto
    from a b c ih(5) show ?thesis by blast
  next
    case False
    then have "brace_scan content end_pos brace_count = (end_pos, brace_count)"
      by (rule brace_scan_stop)
    with "1.prems"(1) have "e = end_pos" "d = brace_count" by simp_all
    with False "1.prems"(2) show ?thesis by auto
  qed
qed

text \<open>
  C9. For every text and every start position the brace-depth scan returns: the loop is
  defined by recursion on the distance between the scan position and the end of the text,
  and every iteration moves the position forward by exactly one character. The position it
  returns is the first one at which the depth of the braces read since the start is zero,
  or the end of the text when the depth never returns to zero (unbalanced braces): the
  depth returned is the depth of the braces read, it was positive after every shorter
  prefix, and it is zero unless the scan reached the end of the text. A scan that starts
  inside the text advances.
\<close>

theorem brace_scan_terminates:
  "\<exists>e d. brace_scan content start 1 = (e, d)
      \<and> start \<le> e \<and> e \<le> max start (length content)
      \<and> d = depth_after content start (e - start)
      \<and> (\<forall>k < e - start. 0 < depth_after content start k)
      \<and> (d = 0 \<or> length content \<le> e)
      \<and> (start < length content \<longrightarrow> start < e)
      \<and> (\<forall>pos depth. pos < length content \<and> 0 < depth \<longrightarrow>
            brace_scan content pos depth =
            brace_scan content (Suc pos) (depth + brace_delta (content ! pos)))"
proof -
  obtain e d where eq: "brace_scan content start 1 = (e, d)"
    by (cases "brace_scan content start 1")
  from brace_scan_first_zero[OF eq] brace_scan_step[of _ content] show ?thesis
    unfolding depth_after_def using eq by auto
qed

text \<open>
  The scan of \<open>{a}b}\<close> from position 1 stops after the first closing brace, at position 3.
\<close>

theorem brace_scan_terminates_witness:
  "brace_scan ''{a}b}'' 1 1 = (3, 0)
   \<and> depth_after ''{a}b}'' 1 (3 - 1) = 0
   \<and> 0 < depth_after ''{a}b}'' 1 0
   \<and> 0 < depth_after ''{a}b}'' 1 1
   \<and> brace_scan ''{a}b}'' 1 1 = brace_scan ''{a}b}'' (Suc 1) (1 + brace_delta (''{a}b}'' ! 1))"
proof -
  have ev: "brace_scan ''{a}b}'' 1 1 = (3, 0)" by code_simp
  from brace_scan_terminates[of "''{a}b}''" 1] obtain e d where
    r: "brace_scan ''{a}b}'' 1 1 = (e, d)"
    and dd: "d = depth_after ''{a}b}'' 1 (e - 1)"
    and before: "\<forall>k < e - 1. 0 < depth_after ''{a}b}'' 1 k"
    and step: "\<forall>pos depth. pos < length ''{a}b}'' \<and> 0 < depth \<longrightarrow>
            brace_scan ''{a}b}'' pos depth =
            brace_scan ''{a}b}'' (Suc pos) (depth + brace_delta (''{a}b}'' ! pos))"
    by blast
  from r ev have e: "e = 3" and d: "d = 0" by simp_all
  from dd have a: "depth_after ''{a}b}'' 1 (3 - 1) = 0" unfolding e d by simp
  from before have b: "0 < depth_after ''{a}b}'' 1 0" "0 < depth_after ''{a}b}'' 1 1"
    unfolding e by simp_all
  have "(1::nat) < length ''{a}b}'' \<and> (0::int) < 1" by simp
  with step have c: "brace_scan ''{a}b}'' 1 1 =
      brace_scan ''{a}b}'' (Suc 1) (1 + brace_delta (''{a}b}'' ! 1))" by blast
  from ev a b c show ?thesis by blast
qed

subsection \<open>Dictionaries filled by a loop\<close>

lemma store_fold_distinct:
  "distinct (map fst d) \<Longrightarrow> distinct (map fst (fold (\<lambda>m. AList.update (kf m) (vf m)) ms d))"
  by (induction ms arbitrary: d) (simp_all add: distinct_update)

lemma store_fold_keys:
  "fst ` set (fold (\<lambda>m. AList.update (kf m) (vf m)) ms d) = fst ` set d \<union> kf ` set ms"
  by (induction ms arbitrary: d) (auto simp: dom_update)

lemma store_fold_other:
  "k \<notin> kf ` set ms \<Longrightarrow> map_of (fold (\<lambda>m. AList.update (kf m) (vf m)) ms d) k = map_of d k"
  by (induction ms arbitrary: d) (auto simp: update_conv')

lemma store_fold_last:
  assumes "i < length ms" and "kf (ms ! i) \<notin> kf ` set (drop (Suc i) ms)"
  shows "map_of (fold (\<lambda>m. AList.update (kf m) (vf m)) ms d) (kf (ms ! i)) = Some (vf (ms ! i))"
proof -
  have ms: "ms = take i ms @ ms ! i # drop (Suc i) ms"
    using assms(1) by (rule id_take_nth_drop)
  have "fold (\<lambda>m. AList.update (kf m) (vf m)) ms d =
        fold (\<lambda>m. AList.update (kf m) (vf m)) (drop (Suc i) ms)
          (AList.update (kf (ms ! i)) (vf (ms ! i)) (fold (\<lambda>m. AList.update (kf m) (vf m)) (take i ms) d))"
    by (subst ms) simp
  then show ?thesis
    using assms(2) by (simp add: store_fold_other update_conv')
qed

lemma store_fold_length:
  "length (fold (\<lambda>m. AList.update (kf m) (vf m)) ms []) = card (kf ` set ms)"
proof -
  let ?d = "fold (\<lambda>m. AList.update (kf m) (vf m)) ms []"
  have "distinct (map fst ?d)" by (rule store_fold_distinct) simp
  then have "card (set (map fst ?d)) = length (map fst ?d)" by (rule distinct_card)
  moreover have "set (map fst ?d) = kf ` set ms" using store_fold_keys[of kf vf ms "[]"] by simp
  ultimately show ?thesis by simp
qed

lemma store_fold_skip:
  "fold (\<lambda>m d. if P m then d else g m d) ms d = fold g (filter (\<lambda>m. \<not> P m) ms) d"
  by (induction ms arbitrary: d) simp_all

lemma store_fold_key_list:
  "map fst (fold (\<lambda>m. AList.update (kf m) (vf m)) ms d) = fold (\<lambda>m. note_key (kf m)) ms (map fst d)"
  by (induction ms arbitrary: d) (simp_all add: update_keys)

lemma note_key_filter:
  "fold (\<lambda>m. note_key (kf m)) (filter (\<lambda>m. Q (kf m)) ms) (filter Q ks) =
   filter Q (fold (\<lambda>m. note_key (kf m)) ms ks)"
proof (induction ms arbitrary: ks)
  case Nil
  show ?case by simp
next
  case (Cons m ms)
  show ?case
  proof (cases "Q (kf m)")
    case True
    then have "note_key (kf m) (filter Q ks) = filter Q (note_key (kf m) ks)" by simp
    with True Cons.IH[of "note_key (kf m) ks"] show ?thesis by simp
  next
    case False
    then have "filter Q (note_key (kf m) ks) = filter Q ks" by simp
    with False Cons.IH[of "note_key (kf m) ks"] show ?thesis by simp
  qed
qed

lemma find_append_cases:
  "find P (xs @ ys) = (case find P xs of None \<Rightarrow> find P ys | Some x \<Rightarrow> Some x)"
  by (induction xs) simp_all

lemma store_fold_map_of:
  "map_of (fold (\<lambda>m. AList.update (kf m) (vf m)) ms d) k =
     (case find (\<lambda>m. kf m = k) (rev ms) of Some m \<Rightarrow> Some (vf m) | None \<Rightarrow> map_of d k)"
proof (induction ms arbitrary: d)
  case Nil
  show ?case by simp
next
  case (Cons m ms)
  show ?case
    by (simp add: Cons.IH find_append_cases update_conv' split: option.splits)
qed

lemma find_filter_key:
  "Q k \<Longrightarrow> find (\<lambda>m. kf m = k) (filter (\<lambda>m. Q (kf m)) ms) = find (\<lambda>m. kf m = k) ms"
  by (induction ms) auto

lemma extract_functions_fold:
  "extract_functions content =
     fold (\<lambda>m. AList.update (group content m 2) (function_info content m))
       (rx_finditer func_pattern content) []"
  by (simp add: extract_functions_def)

lemma irc_extract_functions_fold:
  "irc_extract_functions ir =
     fold (\<lambda>m. AList.update (group ir m 2) (irc_function ir m))
       (filter (\<lambda>m. \<not> skipped (group ir m 2)) (rx_finditer func_pattern ir)) []"
  unfolding irc_extract_functions_def Let_def skipped_def
  by (rule store_fold_skip)

lemma function_info_same_definition:
  "same_definition (function_info ir m) (irc_function ir m)"
  by (simp add: same_definition_def function_info_def irc_function_def Let_def)

text \<open>
  C2 (as amended). The converter finds the function definitions with the header pattern and
  the brace-depth scan of the report tool, but drops the names that begin with \<open>llvm.\<close> or
  \<open>__\<close>: its collection holds, in the same order, the names of the report tool's collection
  that are not dropped, and the entry of each comes from the same definition as the report
  tool's entry. The lowering rules of the two tools differ and are not part of the statement.
\<close>

theorem converter_collection_refines_report:
  "map fst (irc_extract_functions ir) = filter (\<lambda>n. \<not> skipped n) (map fst (extract_functions ir))
   \<and> (\<not> skipped n \<longrightarrow>
        rel_option same_definition (map_of (extract_functions ir) n)
          (map_of (irc_extract_functions ir) n))"
proof
  show "map fst (irc_extract_functions ir) =
        filter (\<lambda>n. \<not> skipped n) (map fst (extract_functions ir))"
    unfolding extract_functions_fold irc_extract_functions_fold store_fold_key_list
    using note_key_filter[of "\<lambda>m. group ir m 2" "\<lambda>n. \<not> skipped n" "rx_finditer func_pattern ir" "[]"]
    by simp
next
  show "\<not> skipped n \<longrightarrow>
        rel_option same_definition (map_of (extract_functions ir) n)
          (map_of (irc_extract_functions ir) n)"
  proof
    assume n: "\<not> skipped n"
    have "find (\<lambda>m. group ir m 2 = n)
            (rev (filter (\<lambda>m. \<not> skipped (group ir m 2)) (rx_finditer func_pattern ir))) =
          find (\<lambda>m. group ir m 2 = n) (rev (rx_finditer func_pattern ir))"
      using find_filter_key[of "\<lambda>n. \<not> skipped n" n "\<lambda>m. group ir m 2" "rev (rx_finditer func_pattern ir)"] n
      by (simp add: rev_filter)
    then show "rel_option same_definition (map_of (extract_functions ir) n)
          (map_of (irc_extract_functions ir) n)"
      unfolding extract_functions_fold irc_extract_functions_fold store_fold_map_of
      by (simp add: function_info_same_definition split: option.splits)
  qed
qed

subsection \<open>Function collections\<close>

lemma find_last_key:
  assumes "i < length ms" and "kf (ms ! i) \<notin> kf ` set (drop (Suc i) ms)"
  shows "find (\<lambda>m. kf m = kf (ms ! i)) (rev ms) = Some (ms ! i)"
proof -
  have ms: "ms = take i ms @ ms ! i # drop (Suc i) ms"
    using assms(1) by (rule id_take_nth_drop)
  have none: "find (\<lambda>m. kf m = kf (ms ! i)) (rev (drop (Suc i) ms)) = None"
    using assms(2) by (force simp: find_None_iff image_iff)
  have "rev ms = rev (drop (Suc i) ms) @ ms ! i # rev (take i ms)"
    by (subst ms) simp
  then show ?thesis
    by (simp add: find_append_cases none)
qed

lemma one_entry:
  "distinct (map fst d) \<Longrightarrow> map_of d k = Some v \<Longrightarrow> length (filter (\<lambda>e. fst e = k) d) = 1"
proof (induction d)
  case Nil
  then show ?case by simp
next
  case (Cons e d)
  show ?case
  proof (cases "fst e = k")
    case True
    with Cons.prems(1) have "filter (\<lambda>e. fst e = k) d = []"
      by (force simp: filter_empty_conv image_iff)
    with True show ?thesis by simp
  next
    case False
    with Cons show ?thesis by (cases e) auto
  qed
qed

lemma store_fold_values:
  "(k, v) \<in> set (fold (\<lambda>m. AList.update (kf m) (vf m)) ms d) \<Longrightarrow>
     (k, v) \<in> set d \<or> (\<exists>m \<in> set ms. k = kf m \<and> v = vf m)"
proof (induction ms arbitrary: d)
  case Nil
  then show ?case by simp
next
  case (Cons m ms)
  from Cons.prems have "(k, v) \<in> set (fold (\<lambda>m. AList.update (kf m) (vf m)) ms (AList.update (kf m) (vf m) d))"
    by simp
  from Cons.IH[OF this] show ?case
  proof
    assume "(k, v) \<in> set (AList.update (kf m) (vf m) d)"
    then have "(k, v) \<in> set d \<or> (k = kf m \<and> v = vf m)"
      by (induction d) (auto split: if_splits)
    then show ?thesis by auto
  qed auto
qed

text \<open>
  C10. When the definition found at place \<open>i\<close> has the name \<open>n\<close> and no later definition
  has that name, the report tool's collection holds exactly one entry under \<open>n\<close>, built from
  that definition: later definitions overwrite earlier ones. \<open>total_functions\<close> is the number
  of distinct defined names. The converter's collection holds under \<open>n\<close> the entry built from
  the same definition, unless its skip rule drops the name.
\<close>

theorem later_definition_overwrites:
  assumes "i < length (rx_finditer func_pattern content)"
    and "n = group content (rx_finditer func_pattern content ! i) 2"
    and "n \<notin> set (drop (Suc i) (map (\<lambda>m. group content m 2) (rx_finditer func_pattern content)))"
  shows "length (filter (\<lambda>e. fst e = n) (extract_functions content)) = 1
     \<and> map_of (extract_functions content) n =
         Some (function_info content (rx_finditer func_pattern content ! i))
     \<and> total_functions (listing_metrics content) = card (defined_names content)
     \<and> (if skipped n then map_of (irc_extract_functions content) n = None
        else map_of (irc_extract_functions content) n =
               Some (irc_function content (rx_finditer func_pattern content ! i)))"
proof -
  let ?ms = "rx_finditer func_pattern content"
  let ?kf = "\<lambda>m. group content m 2"
  from assms(3) have notin: "?kf (?ms ! i) \<notin> ?kf ` set (drop (Suc i) ?ms)"
    by (simp add: assms(2) drop_map)
  have last: "find (\<lambda>m. ?kf m = n) (rev ?ms) = Some (?ms ! i)"
    using find_last_key[OF assms(1) notin] assms(2) by simp
  have rep: "map_of (extract_functions content) n = Some (function_info content (?ms ! i))"
    unfolding extract_functions_fold store_fold_map_of by (simp add: last)
  have "distinct (map fst (extract_functions content))"
    unfolding extract_functions_fold by (rule store_fold_distinct) simp
  from one_entry[OF this rep]
  have one: "length (filter (\<lambda>e. fst e = n) (extract_functions content)) = 1" .
  have total: "total_functions (listing_metrics content) = card (defined_names content)"
    unfolding listing_metrics_def get_metrics_def Let_def extract_functions_fold defined_names_def
    by (simp add: store_fold_length)
  have conv: "if skipped n then map_of (irc_extract_functions content) n = None
        else map_of (irc_extract_functions content) n = Some (irc_function content (?ms ! i))"
  proof (cases "skipped n")
    case True
    have "n \<notin> fst ` set (irc_extract_functions content)"
      unfolding irc_extract_functions_fold store_fold_keys using True by auto
    then have "map_of (irc_extract_functions content) n = None"
      by (simp add: map_of_eq_None_iff)
    with True show ?thesis by simp
  next
    case False
    have "find (\<lambda>m. ?kf m = n) (rev (filter (\<lambda>m. \<not> skipped (?kf m)) ?ms)) =
          find (\<lambda>m. ?kf m = n) (rev ?ms)"
      using find_filter_key[of "\<lambda>n. \<not> skipped n" n ?kf "rev ?ms"] False
      by (simp add: rev_filter)
    then have "map_of (irc_extract_functions content) n = Some (irc_function content (?ms ! i))"
      unfolding irc_extract_functions_fold store_fold_map_of by (simp add: last)
    with False show ?thesis by simp
  qed
  from one rep total conv show ?thesis by blast
qed

text \<open>
  C1 (as amended). For every function of the report tool's collection, the complexity is the
  number of entries of its instructions plus twice its block count, where both are taken
  from the body of a definition of that name. The instructions are not filtered for label
  lines.
\<close>

theorem complexity_formula:
  assumes "(n, f) \<in> set (extract_functions content)"
  shows "complexity f = length (instructions f) + 2 * basic_blocks f
     \<and> (\<exists>m \<in> set (rx_finditer func_pattern content).
          n = group content m 2 \<and>
          instructions f = body_instructions (function_body content (m_end m)) \<and>
          basic_blocks f = count_basic_blocks (function_body content (m_end m)))"
proof -
  from assms obtain m where m: "m \<in> set (rx_finditer func_pattern content)"
      and n: "n = group content m 2" and f: "f = function_info content m"
    unfolding extract_functions_fold by (auto dest: store_fold_values)
  from f have "complexity f = length (instructions f) + 2 * basic_blocks f"
    and "instructions f = body_instructions (function_body content (m_end m))"
    and "basic_blocks f = count_basic_blocks (function_body content (m_end m))"
    by (simp_all add: function_info_def Let_def)
  with m n show ?thesis by blast
qed

lemma metrics_totals:
  "total_functions (listing_metrics c) = length (map fst (extract_functions c))"
  "total_instructions (listing_metrics c) =
     sum_list (map (\<lambda>f. length (instructions f)) (map snd (extract_functions c)))"
  by (simp_all add: listing_metrics_def get_metrics_def Let_def)

text \<open>
  A listing that defines \<open>g\<close> twice: the one entry for \<open>g\<close> is that of the second definition.
\<close>

theorem later_definition_overwrites_witness:
  "1 < length (rx_finditer func_pattern
         (''define void @g() { }'' @ [newline] @ ''define i32 @g() { ret i32 0 }''))
   \<and> map (\<lambda>m. group (''define void @g() { }'' @ [newline] @ ''define i32 @g() { ret i32 0 }'') m 2)
        (rx_finditer func_pattern
          (''define void @g() { }'' @ [newline] @ ''define i32 @g() { ret i32 0 }'')) = [''g'', ''g'']
   \<and> length (filter (\<lambda>e. fst e = ''g'')
        (extract_functions (''define void @g() { }'' @ [newline] @ ''define i32 @g() { ret i32 0 }''))) = 1
   \<and> map_of (extract_functions (''define void @g() { }'' @ [newline] @ ''define i32 @g() { ret i32 0 }'')) ''g'' =
        Some (function_info (''define void @g() { }'' @ [newline] @ ''define i32 @g() { ret i32 0 }'')
               (rx_finditer func_pattern
                 (''define void @g() { }'' @ [newline] @ ''define i32 @g() { ret i32 0 }'') ! 1))
   \<and> map (\<lambda>e. (fst e, return_type (snd e), instructions (snd e)))
        (extract_functions (''define void @g() { }'' @ [newline] @ ''define i32 @g() { ret i32 0 }'')) =
        [(''g'', ''i32'', [''ret i32 0''])]"
proof -
  let ?W = "''define void @g() { }'' @ [newline] @ ''define i32 @g() { ret i32 0 }''"
  have names: "map (\<lambda>m. group ?W m 2) (rx_finditer func_pattern ?W) = [''g'', ''g'']"
    by code_simp
  from arg_cong[OF names, of length] have h1: "1 < length (rx_finditer func_pattern ?W)"
    by simp
  have h2: "''g'' = group ?W (rx_finditer func_pattern ?W ! 1) 2"
    using arg_cong[OF names, of "\<lambda>xs. xs ! 1"] h1 by simp
  have h3: "''g'' \<notin> set (drop (Suc 1) (map (\<lambda>m. group ?W m 2) (rx_finditer func_pattern ?W)))"
    unfolding names by simp
  have entries: "map (\<lambda>e. (fst e, return_type (snd e), instructions (snd e))) (extract_functions ?W) =
        [(''g'', ''i32'', [''ret i32 0''])]"
    by code_simp
  from later_definition_overwrites[OF h1 h2 h3] h1 names entries show ?thesis by blast
qed

text \<open>
  The formula at a function whose body is one label line.
\<close>

theorem complexity_formula_witness:
  "(''f'', \<lparr>name = ''f'', params = [], return_type = ''void'', instructions = [''1:''],
            basic_blocks = 1, complexity = 3\<rparr>)
     \<in> set (extract_functions (''define void @f() {'' @ [newline] @ ''1:'' @ [newline] @ ''}''))
   \<and> complexity \<lparr>name = ''f'', params = [], return_type = ''void'', instructions = [''1:''],
            basic_blocks = 1, complexity = 3\<rparr> =
       length (instructions \<lparr>name = ''f'', params = [], return_type = ''void'',
            instructions = [''1:''], basic_blocks = 1, complexity = 3\<rparr>)
       + 2 * basic_blocks \<lparr>name = ''f'', params = [], return_type = ''void'',
            instructions = [''1:''], basic_blocks = 1, complexity = 3\<rparr>"
proof -
  let ?X = "''define void @f() {'' @ [newline] @ ''1:'' @ [newline] @ ''}''"
  let ?F = "\<lparr>name = ''f'', params = [], return_type = ''void'', instructions = [''1:''],
            basic_blocks = 1, complexity = 3\<rparr>"
  have "extract_functions ?X = [(''f'', ?F)]" by code_simp
  then have h: "(''f'', ?F) \<in> set (extract_functions ?X)" by simp
  from complexity_formula[OF h] h show ?thesis by blast
qed

text \<open>
  C1 as stated fails: a body with no instruction line and one label line has, by the
  specification, complexity \<open>0 + 2 * 1\<close> and no instructions; the report tool records the
  label line as an instruction and the complexity 3.
\<close>

theorem label_line_counted_as_instruction:
  "map (\<lambda>m. function_body (''define void @f() {'' @ [newline] @ ''1:'' @ [newline] @ ''}'') (m_end m))
     (rx_finditer func_pattern (''define void @f() {'' @ [newline] @ ''1:'' @ [newline] @ ''}''))
     = [[newline] @ ''1:'' @ [newline]]
   \<and> instruction_line_count ([newline] @ ''1:'' @ [newline]) = 0
   \<and> label_line_count ([newline] @ ''1:'' @ [newline]) = 1
   \<and> map (\<lambda>e. (instructions (snd e), basic_blocks (snd e), complexity (snd e)))
        (extract_functions (''define void @f() {'' @ [newline] @ ''1:'' @ [newline] @ ''}''))
     = [([''1:''], 1, 3)]"
  by (intro conjI; code_simp)

text \<open>
  C2 as stated fails: a definition named \<open>__f\<close> is in the report tool's collection and not in
  the converter's, and a branch is lowered to different comments.
\<close>

theorem tools_differ_on_names_and_branches:
  "map fst (extract_functions ''define void @__f() {}'') = [''__f'']
   \<and> map fst (irc_extract_functions ''define void @__f() {}'') = []
   \<and> convert_instruction ''br label %1'' = Some ''// branch instruction''
   \<and> irc_convert_instruction ''br label %1'' = Some ''// branch''"
  by (intro conjI; code_simp)

text \<open>
  A listing with a dropped and a kept definition.
\<close>

theorem converter_collection_refines_report_witness:
  "\<not> skipped ''g''
   \<and> map fst (extract_functions (''define void @__f() {}'' @ [newline] @ ''define void @g() {}''))
       = [''__f'', ''g'']
   \<and> map fst (irc_extract_functions (''define void @__f() {}'' @ [newline] @ ''define void @g() {}''))
       = filter (\<lambda>n. \<not> skipped n)
           (map fst (extract_functions (''define void @__f() {}'' @ [newline] @ ''define void @g() {}'')))
   \<and> rel_option same_definition
        (map_of (extract_functions (''define void @__f() {}'' @ [newline] @ ''define void @g() {}'')) ''g'')
        (map_of (irc_extract_functions (''define void @__f() {}'' @ [newline] @ ''define void @g() {}'')) ''g'')"
proof -
  let ?X = "''define void @__f() {}'' @ [newline] @ ''define void @g() {}''"
  have h: "\<not> skipped ''g''" by code_simp
  have names: "map fst (extract_functions ?X) = [''__f'', ''g'']" by code_simp
  from converter_collection_refines_report[of ?X "''g''"] h names show ?thesis by blast
qed

text \<open>
  C5 as stated fails: the report tool counts a function whose name begins with \<open>__\<close> in
  \<open>total_functions\<close>, and its instruction in \<open>total_instructions\<close>.
\<close>

theorem report_tool_counts_reserved_names:
  "map fst (extract_functions ''define void @__f() { ret void }'') = [''__f'']
   \<and> map (\<lambda>f. instructions f) (map snd (extract_functions ''define void @__f() { ret void }''))
       = [[''ret void'']]
   \<and> total_functions (listing_metrics ''define void @__f() { ret void }'') = 1
   \<and> total_instructions (listing_metrics ''define void @__f() { ret void }'') = 1"
proof -
  let ?X = "''define void @__f() { ret void }''"
  have names: "map fst (extract_functions ?X) = [''__f'']" by code_simp
  have instrs: "map (\<lambda>f. instructions f) (map snd (extract_functions ?X)) = [[''ret void'']]"
    by code_simp
  have "map (\<lambda>f. length (instructions f)) (map snd (extract_functions ?X)) =
        map length (map (\<lambda>f. instructions f) (map snd (extract_functions ?X)))"
    by simp
  then have lens: "map (\<lambda>f. length (instructions f)) (map snd (extract_functions ?X)) = [1]"
    unfolding instrs by simp
  have "total_functions (listing_metrics ?X) = 1"
    unfolding metrics_totals(1) names by simp
  moreover have "total_instructions (listing_metrics ?X) = 1"
    unfolding metrics_totals(2) lens by simp
  ultimately show ?thesis using names instrs by blast
qed

subsection \<open>The output-size policy\<close>

lemma concat_short_length:
  "(\<And>x. length (f x) \<le> 1) \<Longrightarrow> length (concat (map f xs)) \<le> length xs"
proof (induction xs)
  case Nil
  show ?case by simp
next
  case (Cons x xs)
  from Cons.prems have "length (f x) \<le> 1" .
  with Cons.IH[OF Cons.prems] show ?case by simp
qed

lemma lowered_lines_length: "length (lowered_lines instrs) \<le> 20"
proof -
  have "length (lowered_lines instrs) \<le> length (take 20 instrs)"
    unfolding lowered_lines_def
    by (rule concat_short_length) (simp split: option.splits)
  then show ?thesis by simp
qed

text \<open>
  C3 (as amended). The report tool lowers only the first 20 instructions of a function, so
  at most 20 lowered lines are produced; when the function has more than 20 instructions,
  exactly one summary comment follows them, stating the number of instructions beyond the
  first 20, and no summary comment otherwise. The converter keeps the first 30 produced
  lines and nothing else: it never appends a summary comment.
\<close>

theorem output_size_policy:
  "length (lowered_lines instrs) \<le> 20
   \<and> lowered_lines instrs = lowered_lines (take 20 instrs)
   \<and> decompile_function_lines f =
       (if length (instructions f) > 20
        then signature_line f # lowered_lines (instructions f) @
             [''    // ... '' @ str_nat (length (instructions f) - 20) @ '' more instructions ...'',
              ''}'']
        else signature_line f # lowered_lines (instructions f) @ [''}''])
   \<and> length (decompile_body body) = min 30 (length (body_lines body))
   \<and> decompile_body body @ drop 30 (body_lines body) = body_lines body"
proof (intro conjI)
  show "length (lowered_lines instrs) \<le> 20" by (rule lowered_lines_length)
  show "lowered_lines instrs = lowered_lines (take 20 instrs)"
    by (simp add: lowered_lines_def)
  show "decompile_function_lines f =
       (if length (instructions f) > 20
        then signature_line f # lowered_lines (instructions f) @
             [''    // ... '' @ str_nat (length (instructions f) - 20) @ '' more instructions ...'',
              ''}'']
        else signature_line f # lowered_lines (instructions f) @ [''}''])"
    by (simp add: decompile_function_lines_def summary_line_def)
  show "length (decompile_body body) = min 30 (length (body_lines body))"
    by (simp add: decompile_body_def min.commute)
  show "decompile_body body @ drop 30 (body_lines body) = body_lines body"
    by (simp add: decompile_body_def)
qed

text \<open>
  C3 as stated fails: a body of 31 branch lines produces 31 lines in the converter, the
  output is the first 30 of them, and its last line is a lowered line, not a summary
  comment.
\<close>

theorem converter_truncates_without_summary:
  "body_lines (concat (replicate 31 (''br'' @ [newline]))) = replicate 31 ''// branch''
   \<and> decompile_body (concat (replicate 31 (''br'' @ [newline]))) = replicate 30 ''// branch''"
proof -
  have b: "body_lines (concat (replicate 31 (''br'' @ [newline]))) = replicate 31 ''// branch''"
    by code_simp
  have "take 30 (replicate 31 ''// branch'') = replicate 30 ''// branch''"
    by simp
  with b show ?thesis unfolding decompile_body_def by simp
qed

subsection \<open>Decoding string payloads\<close>

lemma utf8_encode_ascii:
  "\<forall>c \<in> set s. code c < 128 \<Longrightarrow> utf8_encode s = s"
  unfolding utf8_encode_def by (induction s) (simp_all add: Let_def)

lemma unicode_escape_decode_plain:
  "backslash \<notin> set bs \<Longrightarrow> unicode_escape_decode getcode bs = Inr (map code bs)"
  by (induction bs) (auto simp: unicode_escape_decode.simps)

lemma decode_string_plain_ascii:
  assumes "backslash \<notin> set s" and "\<forall>c \<in> set s. code c < 128"
  shows "decode_string getcode s = raw s"
  using assms
  by (simp add: decode_string_def codecs_decode_def utf8_encode_ascii unicode_escape_decode_plain raw_def)

text \<open>
  C7. The claim says that a payload without a backslash decodes to itself. The code departs
  from it on a payload with a character beyond ASCII: the payload of the one character
  U+00E9 holds no backslash, and is decoded to the two characters U+00C3, U+00A9. (For a
  payload of ASCII characters without a backslash the decoder is the identity, by the lemma
  above.)
\<close>

theorem decode_changes_plain_latin1:
  "backslash \<notin> set [CHR 0xE9]
   \<and> decode_string getcode [CHR 0xE9] = [195, 169]
   \<and> raw [CHR 0xE9] = [233]"
  by (intro conjI; code_simp)

text \<open>
  C8. Decoding never raises: \<open>decode_string\<close> returns a text for every payload. When the
  codec fails on the payload at place \<open>i\<close>, the string constant at place \<open>i\<close> is the raw
  payload, and the other payloads of the listing are processed all the same: the list of
  constants has one entry per non-empty payload.
\<close>

theorem decode_failure_keeps_raw_payload:
  assumes "payloads = filter (\<lambda>m. m \<noteq> []) (rx_findall1 strings_pattern content)"
    and "i < length payloads"
    and "codecs_decode getcode (payloads ! i) = Inl err"
  shows "decode_string getcode (payloads ! i) = raw (payloads ! i)
     \<and> length (extract_strings getcode content) = length payloads
     \<and> extract_strings getcode content ! i = raw (payloads ! i)
     \<and> extract_strings getcode content = map (decode_string getcode) payloads"
proof -
  have d: "decode_string getcode (payloads ! i) = raw (payloads ! i)"
    using assms(3) by (simp add: decode_string_def)
  have e: "extract_strings getcode content = map (decode_string getcode) payloads"
    by (simp add: extract_strings_def assms(1))
  from d e assms(2) show ?thesis by simp
qed

text \<open>
  A listing with a payload that ends in a truncated escape, and a second payload.
\<close>

theorem decode_failure_keeps_raw_payload_witness:
  "[[backslash, CHR ''x''], ''ok''] =
     filter (\<lambda>m. m \<noteq> [])
       (rx_findall1 strings_pattern
          ([CHR ''c'', dquote, backslash, CHR ''x'', dquote] @ '' c'' @ [dquote] @ ''ok'' @ [dquote]))
   \<and> codecs_decode (\<lambda>n. None) ([[backslash, CHR ''x''], ''ok''] ! 0) = Inl TruncatedX
   \<and> extract_strings (\<lambda>n. None)
        ([CHR ''c'', dquote, backslash, CHR ''x'', dquote] @ '' c'' @ [dquote] @ ''ok'' @ [dquote]) ! 0
       = raw ([[backslash, CHR ''x''], ''ok''] ! 0)
   \<and> raw ([[backslash, CHR ''x''], ''ok''] ! 0) = [92, 120]
   \<and> length (extract_strings (\<lambda>n. None)
        ([CHR ''c'', dquote, backslash, CHR ''x'', dquote] @ '' c'' @ [dquote] @ ''ok'' @ [dquote]))
       = length [[backslash, CHR ''x''], ''ok'']"
proof -
  let ?C = "[CHR ''c'', dquote, backslash, CHR ''x'', dquote] @ '' c'' @ [dquote] @ ''ok'' @ [dquote]"
  let ?P = "[[backslash, CHR ''x''], ''ok'']"
  have h1: "?P = filter (\<lambda>m. m \<noteq> []) (rx_findall1 strings_pattern ?C)"
    by code_simp
  have h2: "0 < length ?P" by simp
  have h3: "codecs_decode (\<lambda>n. None) (?P ! 0) = Inl TruncatedX"
    by code_simp
  have r: "raw (?P ! 0) = [92, 120]" by code_simp
  from decode_failure_keeps_raw_payload[OF h1 h2 h3] h1 h3 r show ?thesis
    by blast
qed

subsection \<open>Searching\<close>

lemma first_match_None:
  "first_match r t is = None \<longleftrightarrow> (\<forall>i \<in> set is. rx_match_at r t i = None)"
  by (induction "is") (auto split: option.splits)

lemma first_match_upt_Some:
  "first_match r t [pos ..< n] = Some m \<Longrightarrow>
     \<exists>i. pos \<le> i \<and> i < n \<and> rx_match_at r t i = Some m \<and>
         (\<forall>j. pos \<le> j \<and> j < i \<longrightarrow> rx_match_at r t j = None)"
proof (induction "n - pos" arbitrary: pos)
  case 0
  then show ?case by simp
next
  case (Suc d)
  then have lt: "pos < n" by simp
  then have upt: "[pos ..< n] = pos # [Suc pos ..< n]" by (rule upt_conv_Cons)
  show ?case
  proof (cases "rx_match_at r t pos")
    case (Some m')
    with Suc.prems upt have "m' = m" by simp
    with Some lt show ?thesis by auto
  next
    case None
    with Suc.prems upt have "first_match r t [Suc pos ..< n] = Some m" by simp
    moreover from Suc.hyps(2) have "d = n - Suc pos" by simp
    ultimately obtain i where i: "Suc pos \<le> i" "i < n" "rx_match_at r t i = Some m"
        "\<forall>j. Suc pos \<le> j \<and> j < i \<longrightarrow> rx_match_at r t j = None"
      using Suc.hyps(1)[of "Suc pos"] by blast
    have "\<forall>j. pos \<le> j \<and> j < i \<longrightarrow> rx_match_at r t j = None"
    proof (intro allI impI)
      fix j assume "pos \<le> j \<and> j < i"
      then show "rx_match_at r t j = None"
        using None i(4) by (cases "j = pos") auto
    qed
    with i show ?thesis by (intro exI[of _ i]) auto
  qed
qed

lemma finditer_no_match:
  assumes "\<And>i. rx_match_at r t i = None"
  shows "rx_finditer r t = []"
proof -
  have "rx_search_from r t 0 = None"
    unfolding rx_search_from_def first_match_None using assms by simp
  then show ?thesis
    unfolding rx_finditer_def by (subst rx_finditer_from.simps) simp
qed

lemma search_None_finditer:
  "rx_search r t = None \<Longrightarrow> rx_finditer r t = []"
  unfolding rx_finditer_def rx_search_def by (subst rx_finditer_from.simps) simp

subsection \<open>Counting the matches of two literals\<close>

lemma upt_split: "i \<le> j \<Longrightarrow> j \<le> k \<Longrightarrow> [i ..< k] = [i ..< j] @ [j ..< k]"
  using upt_add_eq_append[of i j "k - j"] by simp

lemma match_at_alt:
  assumes "length b = length a"
  shows "rx_match_at (Alt (Lit a) (Lit b)) t i =
     (if either_at a b t i
      then Some \<lparr>m_start = i, m_end = i + length a, m_caps = Map.empty\<rparr> else None)"
  using assms by (auto simp: rx_match_at_def either_at_def startswith_def)

lemma startswith_length:
  assumes "startswith (drop i t) a" and "a \<noteq> []"
  shows "i + length a \<le> length t"
proof -
  from assms(1) have "length (take (length a) (drop i t)) = length a"
    by (simp only: startswith_def)
  then have "min (length a) (length t - i) = length a" by (simp add: min.commute)
  moreover from assms(2) have "0 < length a" by simp
  ultimately show ?thesis by arith
qed

lemma startswith_split:
  assumes "startswith (drop i t) a"
  shows "drop i t = a @ drop (length a) (drop i t)"
proof -
  have "drop i t = take (length a) (drop i t) @ drop (length a) (drop i t)"
    by (rule append_take_drop_id[symmetric])
  with assms show ?thesis by (simp only: startswith_def)
qed

lemma no_overlap:
  assumes "hd y \<notin> set (tl x)" and "y \<noteq> []" and "0 < k" and "k < length x"
  shows "\<not> startswith (drop k x @ rest) y"
proof
  assume sw: "startswith (drop k x @ rest) y"
  from assms(4) obtain c cs where d: "drop k x = c # cs"
    by (cases "drop k x") auto
  from assms(3,4) have "x ! k \<in> set (tl x)"
    by (cases x) (auto simp: nth_Cons')
  moreover from d assms(4) have "c = x ! k"
    by (metis Cons_nth_drop_Suc list.inject)
  ultimately have c: "c \<in> set (tl x)" by simp
  from sw assms(2) have "hd y = c"
    unfolding d by (cases y) (auto simp: startswith_def)
  with c assms(1) show False by simp
qed

lemma either_do_not_overlap:
  assumes sep: "hd a \<notin> set (tl a)" "hd a \<notin> set (tl b)" "hd b \<notin> set (tl a)" "hd b \<notin> set (tl b)"
    and len: "length b = length a" "a \<noteq> []"
    and at: "either_at a b t i" and j: "i < j" "j < i + length a"
  shows "\<not> either_at a b t j"
proof -
  define k where "k = j - i"
  with j have k: "0 < k" "k < length a" and jk: "j = k + i" by simp_all
  have dj: "drop j t = drop k (drop i t)" by (simp add: jk)
  from len have b: "b \<noteq> []" "k < length b" using k by auto
  from at show ?thesis
    unfolding either_at_def
  proof
    assume "startswith (drop i t) a"
    then have "drop i t = a @ drop (length a) (drop i t)" by (rule startswith_split)
    then have "drop j t = drop k (a @ drop (length a) (drop i t))" using dj by simp
    also have "\<dots> = drop k a @ drop (length a) (drop i t)" using k(2) by simp
    finally have "drop j t = drop k a @ drop (length a) (drop i t)" .
    then show "\<not> (startswith (drop j t) a \<or> startswith (drop j t) b)"
      using no_overlap[OF sep(1) len(2) k] no_overlap[OF sep(3) b(1) k] by simp
  next
    assume "startswith (drop i t) b"
    then have "drop i t = b @ drop (length b) (drop i t)" by (rule startswith_split)
    then have "drop j t = drop k (b @ drop (length b) (drop i t))" using dj by simp
    also have "\<dots> = drop k b @ drop (length b) (drop i t)" using b(2) by simp
    finally have "drop j t = drop k b @ drop (length b) (drop i t)" .
    then show "\<not> (startswith (drop j t) a \<or> startswith (drop j t) b)"
      using no_overlap[OF sep(2) len(2) k(1) b(2)] no_overlap[OF sep(4) b(1) k(1) b(2)] by simp
  qed
qed

lemma either_length:
  assumes "length b = length a" and "a \<noteq> []" and "either_at a b t i"
  shows "i + length a \<le> length t"
proof -
  from assms(1,2) have "b \<noteq> []" by auto
  with assms show ?thesis
    unfolding either_at_def using startswith_length[of i t a] startswith_length[of i t b] by auto
qed

lemma count_step:
  assumes sep: "hd a \<notin> set (tl a)" "hd a \<notin> set (tl b)" "hd b \<notin> set (tl a)" "hd b \<notin> set (tl b)"
    and len: "length b = length a" "a \<noteq> []"
    and "pos \<le> i" and at: "either_at a b t i"
    and before: "\<forall>j. pos \<le> j \<and> j < i \<longrightarrow> \<not> either_at a b t j"
  shows "length (filter (either_at a b t) [pos ..< length t]) =
         Suc (length (filter (either_at a b t) [i + length a ..< length t]))"
proof -
  from len at have le: "i + length a \<le> length t" by (rule either_length)
  from len(2) have pos_len: "0 < length a" by simp
  have "[pos ..< length t] = [pos ..< i] @ [i ..< length t]"
    using assms(7) le by (intro upt_split) simp_all
  moreover have "[i ..< length t] = [i ..< i + length a] @ [i + length a ..< length t]"
    using le by (intro upt_split) simp_all
  moreover have "filter (either_at a b t) [pos ..< i] = []"
    using before by (auto simp: filter_empty_conv)
  moreover have "[i ..< i + length a] = i # [Suc i ..< i + length a]"
    using pos_len by (intro upt_conv_Cons) simp
  moreover have "filter (either_at a b t) [Suc i ..< i + length a] = []"
    using either_do_not_overlap[OF sep len at] by (auto simp: filter_empty_conv)
  ultimately show ?thesis using at by simp
qed

lemma finditer_from_alt:
  assumes sep: "hd a \<notin> set (tl a)" "hd a \<notin> set (tl b)" "hd b \<notin> set (tl a)" "hd b \<notin> set (tl b)"
    and len: "length b = length a" "a \<noteq> []"
  shows "pos \<le> length t \<Longrightarrow>
     length (rx_finditer_from (Alt (Lit a) (Lit b)) t pos) =
     length (filter (either_at a b t) [pos ..< length t])"
proof (induction "length t - pos" arbitrary: pos rule: less_induct)
  case less
  let ?r = "Alt (Lit a) (Lit b)"
  note at = match_at_alt[OF len(1)]
  show ?case
  proof (cases "rx_search_from ?r t pos")
    case None
    then have "\<forall>i \<in> set [pos ..< Suc (length t)]. rx_match_at ?r t i = None"
      unfolding rx_search_from_def first_match_None .
    then have "\<forall>i \<in> set [pos ..< length t]. \<not> either_at a b t i"
      by (auto simp: at split: if_splits)
    then have "filter (either_at a b t) [pos ..< length t] = []"
      by (auto simp: filter_empty_conv)
    with None less.prems show ?thesis
      by (subst rx_finditer_from.simps) simp
  next
    case (Some m)
    then obtain i where i: "pos \<le> i" "i < Suc (length t)"
        "rx_match_at ?r t i = Some m"
        "\<forall>j. pos \<le> j \<and> j < i \<longrightarrow> rx_match_at ?r t j = None"
      unfolding rx_search_from_def by (blast dest: first_match_upt_Some)
    from i(3) have s: "either_at a b t i" and e: "m_end m = i + length a"
      by (auto simp: at split: if_splits)
    from i(4) have before: "\<forall>j. pos \<le> j \<and> j < i \<longrightarrow> \<not> either_at a b t j"
      by (auto simp: at split: if_splits)
    from len s have le: "i + length a \<le> length t" by (rule either_length)
    from len(2) have pos_len: "0 < length a" by simp
    have "Suc pos \<le> i + length a" using i(1) pos_len by arith
    then have next_pos: "max (m_end m) (Suc pos) = i + length a"
      unfolding e by (rule max_absorb1)
    have "length (rx_finditer_from ?r t (i + length a)) =
          length (filter (either_at a b t) [i + length a ..< length t])"
    proof (rule less.hyps)
      show "length t - (i + length a) < length t - pos" using le i(1) pos_len by arith
      show "i + length a \<le> length t" by (rule le)
    qed
    moreover have "rx_finditer_from ?r t pos = m # rx_finditer_from ?r t (i + length a)"
      using Some less.prems next_pos by (subst rx_finditer_from.simps) simp
    ultimately show ?thesis
      using count_step[OF sep len i(1) s before] by simp
  qed
qed

lemma filter_disjoint_count:
  "(\<And>x. \<not> (P x \<and> Q x)) \<Longrightarrow>
     length (filter (\<lambda>x. P x \<or> Q x) xs) = length (filter P xs) + length (filter Q xs)"
  by (induction xs) auto

lemma either_count:
  assumes "a \<noteq> b" and "length b = length a"
  shows "length (filter (either_at a b t) [0 ..< length t]) = occurrences a t + occurrences b t"
proof -
  have "\<And>i. \<not> (startswith (drop i t) a \<and> startswith (drop i t) b)"
    using assms by (auto simp: startswith_def)
  from filter_disjoint_count[of "\<lambda>i. startswith (drop i t) a" "\<lambda>i. startswith (drop i t) b", OF this]
  show ?thesis
    unfolding occurrences_def either_at_def[abs_def] by simp
qed

lemma set_count_other:
  "key \<noteq> k \<Longrightarrow> set_count r key content patterns k = patterns k"
  by (simp add: set_count_def)

lemma set_count_same:
  "get_or (set_count r key content patterns) key 0 = length (rx_finditer r content)
     \<or> (rx_search r content = None \<and> get_or (set_count r key content patterns) key 0 = get_or patterns key 0)"
  by (auto simp: set_count_def get_or_def rx_findall0_def)

lemma bogus_code_blocks_eq:
  "bogus_code_blocks (listing_metrics c) =
     occurrences ''0xDEADBEEF'' c + occurrences ''0xCAFEBABE'' c"
proof -
  let ?inner = "set_count (Alt (LitI ''opaque'') (LitI ''obfuscated'')) ''opaque_predicates'' c
     (set_count (Lit ''@__obf_key'') ''string_encryption'' c Map.empty)"
  have inner: "?inner ''bogus_code'' = None"
    by (simp add: set_count_other)
  let ?bp = "Alt (Lit ''0xDEADBEEF'') (Lit ''0xCAFEBABE'')"
  have "bogus_code_blocks (listing_metrics c) =
        get_or (set_count ?bp ''bogus_code'' c ?inner) ''bogus_code'' 0"
    by (simp add: listing_metrics_def get_metrics_def Let_def detect_obfuscation_patterns_def
        get_or_def set_count_other)
  also have "\<dots> = length (rx_finditer ?bp c)"
    using set_count_same[of ?bp "''bogus_code''" c ?inner] inner
    by (auto simp: get_or_def dest: search_None_finditer)
  also have "\<dots> = length (filter (either_at ''0xDEADBEEF'' ''0xCAFEBABE'' c) [0 ..< length c])"
    unfolding rx_finditer_def by (rule finditer_from_alt) simp_all
  also have "\<dots> = occurrences ''0xDEADBEEF'' c + occurrences ''0xCAFEBABE'' c"
    by (rule either_count) simp_all
  finally show ?thesis .
qed

text \<open>
  C6. A listing that contains the sentinel \<open>0xDEADBEEF\<close> exactly twice and the sentinel
  \<open>0xCAFEBABE\<close> not at all has the bogus-code count 2, and a listing that contains neither
  has the count 0: the count is read with the default 0 when the detector stored nothing.
\<close>

theorem bogus_code_counts_sentinels:
  "(occurrences ''0xDEADBEEF'' c = 2 \<and> occurrences ''0xCAFEBABE'' c = 0
      \<longrightarrow> bogus_code_blocks (listing_metrics c) = 2)
   \<and> (occurrences ''0xDEADBEEF'' c = 0 \<and> occurrences ''0xCAFEBABE'' c = 0
      \<longrightarrow> bogus_code_blocks (listing_metrics c) = 0)"
  by (simp add: bogus_code_blocks_eq)

text \<open>
  A listing with two sentinels and a listing with none.
\<close>

theorem bogus_code_counts_sentinels_witness:
  "occurrences ''0xDEADBEEF'' ''x = 0xDEADBEEF + 0xDEADBEEF'' = 2
   \<and> occurrences ''0xCAFEBABE'' ''x = 0xDEADBEEF + 0xDEADBEEF'' = 0
   \<and> bogus_code_blocks (listing_metrics ''x = 0xDEADBEEF + 0xDEADBEEF'') = 2
   \<and> occurrences ''0xDEADBEEF'' ''ret i32 0'' = 0
   \<and> occurrences ''0xCAFEBABE'' ''ret i32 0'' = 0
   \<and> bogus_code_blocks (listing_metrics ''ret i32 0'') = 0"
proof -
  have a: "occurrences ''0xDEADBEEF'' ''x = 0xDEADBEEF + 0xDEADBEEF'' = 2" by code_simp
  have b: "occurrences ''0xCAFEBABE'' ''x = 0xDEADBEEF + 0xDEADBEEF'' = 0" by code_simp
  have c: "occurrences ''0xDEADBEEF'' ''ret i32 0'' = 0" by code_simp
  have d: "occurrences ''0xCAFEBABE'' ''ret i32 0'' = 0" by code_simp
  from bogus_code_counts_sentinels[of "''x = 0xDEADBEEF + 0xDEADBEEF''"]
       bogus_code_counts_sentinels[of "''ret i32 0''"] a b c d
  show ?thesis by blast
qed

subsection \<open>Lowering a return instruction\<close>

lemma run_seq_dead_left: "rx_run a t st = [] \<Longrightarrow> rx_run (Seq a b) t st = []"
  by simp

lemma run_seq_dead_right: "(\<And>st'. rx_run b t st' = []) \<Longrightarrow> rx_run (Seq a b) t st = []"
  by simp

lemma run_lit_absent: "c \<notin> set t \<Longrightarrow> rx_run (Lit [c]) t st = []"
proof (cases st)
  case (Pair i cs)
  assume c: "c \<notin> set t"
  have "take 1 (drop i t) \<noteq> [c]"
  proof
    assume "take 1 (drop i t) = [c]"
    then have "c \<in> set (take 1 (drop i t))" by simp
    then have "c \<in> set t" by (meson in_set_dropD in_set_takeD)
    with c show False by simp
  qed
  with Pair show ?thesis by simp
qed

lemma assign_pattern_no_match:
  assumes "CHR ''='' \<notin> set t"
  shows "rx_match_at assign_pattern t i = None"
proof -
  have a: "\<And>st. rx_run (Seq (Lit ''='') (Rep True 0 is_space)) t st = []"
    by (rule run_seq_dead_left) (rule run_lit_absent[OF assms])
  have b: "\<And>st. rx_run (Seq (Rep True 0 is_space) (Seq (Lit ''='') (Rep True 0 is_space))) t st = []"
    by (rule run_seq_dead_right) (rule a)
  have c: "\<And>st. rx_run (Seq (Rep True 1 is_decimal)
             (Seq (Rep True 0 is_space) (Seq (Lit ''='') (Rep True 0 is_space)))) t st = []"
    by (rule run_seq_dead_right) (rule b)
  have "rx_run assign_pattern t (i, Map.empty) = []"
    unfolding assign_pattern_def seqs.simps
    by (rule run_seq_dead_right) (rule c)
  then show ?thesis by (simp add: rx_match_at_def)
qed

lemma sub_assign_unchanged:
  "CHR ''='' \<notin> set t \<Longrightarrow> rx_sub_empty assign_pattern t = t"
  by (simp add: rx_sub_empty_def finditer_no_match assign_pattern_no_match)

lemma run_rep_greedy:
  assumes "m \<le> length (takeWhile P (drop i t))"
  shows "\<exists>rest. rx_run (Rep True m P) t (i, c) = (i + length (takeWhile P (drop i t)), c) # rest"
proof -
  let ?n = "length (takeWhile P (drop i t))"
  from assms have "[m ..< Suc ?n] = [m ..< ?n] @ [?n]" by simp
  then have "rev [m ..< Suc ?n] = ?n # rev [m ..< ?n]" by simp
  then show ?thesis by (simp add: Let_def)
qed

lemma search_at_start:
  assumes "rx_match_at r t 0 = Some m"
  shows "rx_search r t = Some m"
proof -
  have "[0 ..< Suc (length t)] = 0 # [Suc 0 ..< Suc (length t)]"
    by (rule upt_conv_Cons) simp
  then show ?thesis
    unfolding rx_search_def rx_search_from_def
    by (simp only: first_match.simps assms option.case)
qed

lemma strip_clean:
  assumes "v \<noteq> []" and "\<not> is_space (hd v)" and "\<not> is_space (last v)"
  shows "strip v = v"
proof -
  from assms(1,2) have a: "dropWhile is_space v = v" by (cases v) auto
  from assms(1,3) have "dropWhile is_space (rev v) = rev v"
    by (cases "rev v") (auto simp: last_rev[symmetric] simp del: last_rev)
  with a show ?thesis by (simp add: strip_def)
qed

lemma ret_match:
  assumes "v \<noteq> []" and "\<not> is_space (hd v)" and "newline \<notin> set v"
  shows "\<exists>m. rx_search ret_pattern (''ret '' @ v) = Some m \<and> group (''ret '' @ v) m 1 = v"
proof -
  let ?t = "''ret '' @ v"
  have sp: "is_space CHR '' ''" by (simp add: is_space_def code_def)
  from assms(1,2) have tw: "takeWhile is_space v = []" by (cases v) auto
  have d3: "drop 3 ?t = CHR '' '' # v" by simp
  have d4: "drop 4 ?t = v" by simp
  have n1: "length (takeWhile is_space (drop 3 ?t)) = 1"
    unfolding d3 using sp tw by simp
  from assms(3) have tw2: "takeWhile not_newline v = v"
    by (intro takeWhile_eq_all_conv[THEN iffD2]) (auto simp: not_newline_def)
  have n2: "length (takeWhile not_newline (drop 4 ?t)) = length v"
    unfolding d4 tw2 by (rule refl)
  have r1: "rx_run (Lit ''ret'') ?t (0, Map.empty) = [(3, Map.empty)]" by simp
  have r2: "rx_run (Rep True 1 is_space) ?t (3, Map.empty) = [(4, Map.empty)]"
    using n1 by (simp add: Let_def)
  from assms(1) have "1 \<le> length (takeWhile not_newline (drop 4 ?t))"
    unfolding n2 by (cases v) auto
  from run_rep_greedy[OF this, of Map.empty] obtain rest where
    r3: "rx_run (Rep True 1 not_newline) ?t (4, Map.empty) = (4 + length v, Map.empty) # rest"
    unfolding n2 by blast
  have run: "rx_run ret_pattern ?t (0, Map.empty) =
      (4 + length v, [1 \<mapsto> (4, 4 + length v)])
        # map (\<lambda>(j, c'). (j, c'(1 \<mapsto> (4, j)))) rest"
    unfolding ret_pattern_def seqs.simps rx_run.simps(5) r1
    by (simp only: list.map concat.simps append_Nil2 rx_run.simps(5,7) r2 r3 prod.case)
  let ?m = "\<lparr>m_start = 0, m_end = 4 + length v, m_caps = [1 \<mapsto> (4, 4 + length v)]\<rparr>"
  have "rx_match_at ret_pattern ?t 0 = Some ?m"
    unfolding rx_match_at_def run by simp
  then have "rx_search ret_pattern ?t = Some ?m" by (rule search_at_start)
  moreover have "group ?t ?m 1 = v"
    by (simp add: group_def slice_def)
  ultimately show ?thesis by blast
qed


text \<open>
  C4 (as amended). Take a return line \<open>ret v\<close> with an operand \<open>v\<close> that is not empty,
  neither starts nor ends with white space, and holds no line break and no equals sign. The
  converter lowers it to a bare return statement when \<open>v\<close> contains \<open>void\<close> or is
  \<open>undef\<close>, and to a return statement with the simplified operand otherwise. The report
  tool, when the operand does not contain \<open>call\<close>, lowers it to a bare return statement
  only when \<open>v\<close> is \<open>void\<close>, and to a return statement with the operand as it stands
  otherwise.
\<close>

theorem return_lowering:
  assumes "v \<noteq> []" and "\<not> is_space (hd v)" and "\<not> is_space (last v)"
    and "newline \<notin> set v" and "CHR ''='' \<notin> set v"
  shows "irc_convert_instruction (''ret '' @ v) =
           (if contains v ''void'' \<or> v = ''undef'' then Some ''return;''
            else Some (''return '' @ simplify_value v @ '';''))
     \<and> (\<not> contains v ''call'' \<longrightarrow>
          convert_instruction (''ret '' @ v) =
            (if v = ''void'' then Some ''return;'' else Some (''return '' @ v @ '';'')))"
proof -
  define t where "t = ''ret '' @ v"
  from assms(5) have "CHR ''='' \<notin> set t" by (simp add: t_def)
  then have sub: "rx_sub_empty assign_pattern t = t" by (rule sub_assign_unchanged)
  have ret: "contains t ''ret''" by (simp add: t_def startswith_def)
  have call: "contains t ''call'' = contains v ''call''" by (simp add: t_def startswith_def)
  from ret_match[OF assms(1,2,4)] obtain m where
    m: "rx_search ret_pattern t = Some m" and g: "group t m 1 = v"
    unfolding t_def by blast
  from assms(1,2,3) have st: "strip v = v" by (rule strip_clean)
  have conv: "irc_convert_instruction t =
           (if contains v ''void'' \<or> v = ''undef'' then Some ''return;''
            else Some (''return '' @ simplify_value v @ '';''))"
    unfolding irc_convert_instruction_def Let_def sub
    using assms(1) by (simp only: ret if_True m option.case g st) simp
  have rep: "\<not> contains v ''call'' \<longrightarrow> convert_instruction t =
            (if v = ''void'' then Some ''return;'' else Some (''return '' @ v @ '';''))"
  proof
    assume "\<not> contains v ''call''"
    then have nc: "contains t ''call'' = False" by (simp add: call)
    show "convert_instruction t =
            (if v = ''void'' then Some ''return;'' else Some (''return '' @ v @ '';''))"
      unfolding convert_instruction_def Let_def sub
      using assms(1) by (simp only: nc if_False ret if_True m option.case g st) simp
  qed
  from conv rep show ?thesis unfolding t_def by blast
qed

text \<open>
  The line \<open>ret i32 %1\<close> in both tools.
\<close>

theorem return_lowering_witness:
  "''i32 %1'' \<noteq> [] \<and> \<not> is_space (hd ''i32 %1'') \<and> \<not> is_space (last ''i32 %1'')
   \<and> newline \<notin> set ''i32 %1'' \<and> CHR ''='' \<notin> set ''i32 %1'' \<and> \<not> contains ''i32 %1'' ''call''
   \<and> irc_convert_instruction (''ret '' @ ''i32 %1'') = Some ''return i32 %1;''
   \<and> convert_instruction (''ret '' @ ''i32 %1'') = Some ''return i32 %1;''"
proof -
  have h1: "''i32 %1'' \<noteq> []" by simp
  have h2: "\<not> is_space (hd ''i32 %1'')" by code_simp
  have h3: "\<not> is_space (last ''i32 %1'')" by code_simp
  have h4: "newline \<notin> set ''i32 %1''" by code_simp
  have h5: "CHR ''='' \<notin> set ''i32 %1''" by simp
  have h6: "\<not> contains ''i32 %1'' ''call''" by code_simp
  have v: "\<not> (contains ''i32 %1'' ''void'' \<or> ''i32 %1'' = ''undef'')" by code_simp
  have s: "simplify_value ''i32 %1'' = ''i32 %1''" by code_simp
  have n: "''i32 %1'' \<noteq> ''void''" by simp
  from return_lowering[OF h1 h2 h3 h4 h5] h6 v
  have "irc_convert_instruction (''ret '' @ ''i32 %1'') = Some (''return '' @ simplify_value ''i32 %1'' @ '';'')"
    and "convert_instruction (''ret '' @ ''i32 %1'') = Some (''return '' @ ''i32 %1'' @ '';'')"
    using n by (simp_all only: if_False simp_thms)
  then have "irc_convert_instruction (''ret '' @ ''i32 %1'') = Some ''return i32 %1;''"
    and "convert_instruction (''ret '' @ ''i32 %1'') = Some ''return i32 %1;''"
    unfolding s by simp_all
  with h1 h2 h3 h4 h5 h6 show ?thesis by blast
qed

text \<open>
  C4 as stated fails: the report tool lowers \<open>ret undef\<close> to a return statement with the
  operand \<open>undef\<close>, not to a bare return statement; and the converter lowers a return of
  the global \<open>@void_handler\<close>, whose operand is not the token \<open>void\<close>, to a bare return
  statement.
\<close>

theorem return_lowering_differs:
  "convert_instruction ''ret undef'' = Some ''return undef;''
   \<and> irc_convert_instruction ''ret undef'' = Some ''return;''
   \<and> irc_convert_instruction ''ret ptr @void_handler'' = Some ''return;''"
  by (intro conjI; code_simp)

subsection \<open>The names the header pattern accepts\<close>

lemma no_group_keeps:
  "no_group g r \<Longrightarrow> (e, c') \<in> set (rx_run r t (i, c)) \<Longrightarrow> c' g = c g"
proof (induction r arbitrary: i c e c')
  case (Seq a b)
  from Seq.prems(2) obtain j cm where mid: "(j, cm) \<in> set (rx_run a t (i, c))"
      and fin: "(e, c') \<in> set (rx_run b t (j, cm))"
    by auto
  from Seq.prems(1) have "no_group g a" "no_group g b" by simp_all
  with Seq.IH(1)[OF _ mid] Seq.IH(2)[OF _ fin] show ?case by simp
next
  case (Grp g' r)
  from Grp.prems(2) obtain cm where mid: "(e, cm) \<in> set (rx_run r t (i, c))"
      and c': "c' = cm(g' \<mapsto> (i, e))"
    by auto
  from Grp.prems(1) have "g' \<noteq> g" "no_group g r" by simp_all
  with Grp.IH[OF _ mid] c' show ?case by simp
qed (auto simp: Let_def split: if_splits)

lemma take_takeWhile:
  "k \<le> length (takeWhile P xs) \<Longrightarrow> take k xs = take k (takeWhile P xs)"
proof -
  assume k: "k \<le> length (takeWhile P xs)"
  have "take k xs = take k (takeWhile P xs @ dropWhile P xs)" by simp
  also have "\<dots> = take k (takeWhile P xs)" using k by (simp del: takeWhile_dropWhile_id)
  finally show ?thesis .
qed

lemma run_grp_rep_captured:
  assumes "0 < m" and "(e, c') \<in> set (rx_run (Grp g (Rep greedy m P)) t (i, c))"
  shows "captured t P c' g"
proof -
  let ?n = "length (takeWhile P (drop i t))"
  from assms(2) obtain k where k: "m \<le> k" "k \<le> ?n" and e: "e = i + k"
      and c': "c' = c(g \<mapsto> (i, i + k))"
    by (auto simp: Let_def split: if_splits)
  have sl: "slice t i (i + k) = take k (takeWhile P (drop i t))"
    using take_takeWhile[OF k(2)] by (simp add: slice_def drop_take)
  from k assms(1) have "take k (takeWhile P (drop i t)) \<noteq> []" by auto
  moreover have "list_all P (take k (takeWhile P (drop i t)))"
    unfolding list_all_iff by (auto dest: in_set_takeD set_takeWhileD)
  ultimately show ?thesis
    unfolding captured_def c' sl[symmetric] by (simp add: sl)
qed

lemma run_seqs_cons:
  "rs \<noteq> [] \<Longrightarrow> rx_run (seqs (r # rs)) t st = concat (map (rx_run (seqs rs) t) (rx_run r t st))"
  by (cases rs) simp_all

lemma no_group_seqs: "list_all (no_group g) rs \<Longrightarrow> no_group g (seqs rs)"
  by (induction rs rule: seqs.induct) simp_all

lemma captured_same: "c' g = c g \<Longrightarrow> captured t P c g \<Longrightarrow> captured t P c' g"
  by (simp add: captured_def)

lemma captured_after:
  assumes "0 < m" and "list_all (no_group g) post"
  shows "(e, c') \<in> set (rx_run (seqs (pre @ Grp g (Rep greedy m P) # post)) t st) \<Longrightarrow>
         captured t P c' g"
proof (induction pre arbitrary: st)
  case Nil
  obtain i c where st: "st = (i, c)" by (cases st)
  show ?case
  proof (cases "post = []")
    case True
    with Nil st show ?thesis using run_grp_rep_captured[OF assms(1)] by simp
  next
    case False
    with Nil st obtain j cm where
      mid: "(j, cm) \<in> set (rx_run (Grp g (Rep greedy m P)) t (i, c))"
      and fin: "(e, c') \<in> set (rx_run (seqs post) t (j, cm))"
      by (auto simp: run_seqs_cons simp del: rx_run.simps)
    from run_grp_rep_captured[OF assms(1) mid] have "captured t P cm g" .
    moreover from no_group_keeps[OF no_group_seqs[OF assms(2)] fin] have "c' g = cm g" .
    ultimately show ?thesis by (rule captured_same[rotated])
  qed
next
  case (Cons p pre)
  have "pre @ Grp g (Rep greedy m P) # post \<noteq> []" by simp
  from run_seqs_cons[OF this, of p t st] Cons.prems
  obtain mid where "(e, c') \<in> set (rx_run (seqs (pre @ Grp g (Rep greedy m P) # post)) t mid)"
    by auto
  then show ?case by (rule Cons.IH)
qed

lemma func_pattern_name:
  assumes "rx_match_at func_pattern t i = Some m"
  shows "captured t is_word (m_caps m) 2"
proof -
  from assms have mem: "(m_end m, m_caps m) \<in> set (rx_run func_pattern t (i, Map.empty))"
    by (auto simp: rx_match_at_def split: list.splits)
  have eq: "func_pattern = seqs
     ([Lit ''define'', Rep True 1 is_space,
       Opt (seqs [Lit ''dso_local'', Rep True 1 is_space]),
       Opt (seqs [Lit ''internal'', Rep True 1 is_space]),
       Grp 1 (Rep False 1 (\<lambda>c. c \<noteq> CHR ''@'')), Rep True 1 is_space, Lit ''@'']
      @ Grp 2 (Rep True 1 is_word)
      # [Rep True 0 is_space, Lit ''('', Grp 3 (Rep True 0 (\<lambda>c. c \<noteq> CHR '')'')), Lit '')'',
         Rep True 0 is_space, Lit ''{''])"
    unfolding func_pattern_def by (simp only: append.simps)
  show ?thesis
    by (rule captured_after[OF _ _ mem[unfolded eq]]) simp_all
qed

lemma finditer_from_members:
  "m \<in> set (rx_finditer_from r t pos) \<Longrightarrow> \<exists>i. rx_match_at r t i = Some m"
proof (induction r t pos rule: rx_finditer_from.induct)
  case (1 r t pos)
  show ?case
  proof (cases "length t < pos")
    case True
    with "1.prems" show ?thesis by (subst (asm) rx_finditer_from.simps) simp
  next
    case False
    show ?thesis
    proof (cases "rx_search_from r t pos")
      case None
      with False "1.prems" show ?thesis by (subst (asm) rx_finditer_from.simps) simp
    next
      case (Some m0)
      with False "1.prems" have
        "m = m0 \<or> m \<in> set (rx_finditer_from r t (max (m_end m0) (Suc pos)))"
        by (subst (asm) rx_finditer_from.simps) simp
      then show ?thesis
      proof
        assume "m = m0"
        with Some show ?thesis
          unfolding rx_search_from_def by (blast dest: first_match_upt_Some)
      next
        assume "m \<in> set (rx_finditer_from r t (max (m_end m0) (Suc pos)))"
        with "1.IH"[OF False Some] show ?thesis by blast
      qed
    qed
  qed
qed

lemma defined_names_words:
  assumes "n \<in> defined_names ir"
  shows "n \<noteq> [] \<and> list_all is_word n \<and> \<not> startswith n ''llvm.''"
proof -
  from assms obtain m where m: "m \<in> set (rx_finditer func_pattern ir)" and n: "n = group ir m 2"
    by (auto simp: defined_names_def)
  from m obtain i where "rx_match_at func_pattern ir i = Some m"
    unfolding rx_finditer_def by (blast dest: finditer_from_members)
  then have "captured ir is_word (m_caps m) 2" by (rule func_pattern_name)
  then have w: "n \<noteq> []" "list_all is_word n"
    unfolding n by (auto simp: captured_def group_def split: option.splits)
  have "\<not> startswith n ''llvm.''"
  proof
    assume "startswith n ''llvm.''"
    then have eq: "take (length ''llvm.'') n = ''llvm.''" by (simp only: startswith_def)
    have "CHR ''.'' \<in> set ''llvm.''" by simp
    then have "CHR ''.'' \<in> set (take (length ''llvm.'') n)" by (simp only: eq)
    then have "CHR ''.'' \<in> set n" by (rule in_set_takeD)
    with w(2) have "is_word CHR ''.''" by (simp add: list_all_iff)
    then show False by (simp add: is_word_def code_def)
  qed
  with w show ?thesis by simp
qed

text \<open>
  C5 (as amended). A defined name is a text of word characters, so no function of the
  intrinsic namespace \<open>llvm.\<close> is in the collection of either tool, and none is counted in
  \<open>total_functions\<close> or \<open>total_instructions\<close>, which are taken over the entries of the
  report tool's collection. The rule for the reserved prefix \<open>__\<close> belongs to the
  standalone converter only: its collection holds the defined names that do not begin with
  \<open>__\<close>, while the report tool's collection holds every defined name and \<open>total_functions\<close>
  counts each of them.
\<close>

theorem skip_rule_by_tool:
  "(n \<in> defined_names ir \<longrightarrow> n \<noteq> [] \<and> list_all is_word n \<and> \<not> startswith n ''llvm.'')
   \<and> fst ` set (irc_extract_functions ir) = {n \<in> defined_names ir. \<not> startswith n ''__''}
   \<and> fst ` set (extract_functions ir) = defined_names ir
   \<and> total_functions (listing_metrics ir) = card (defined_names ir)
   \<and> total_instructions (listing_metrics ir) =
       sum_list (map (\<lambda>e. length (instructions (snd e))) (extract_functions ir))"
proof (intro conjI impI)
  assume "n \<in> defined_names ir"
  from defined_names_words[OF this]
  show "n \<noteq> []" "list_all is_word n" "\<not> startswith n ''llvm.''" by simp_all
next
  have "fst ` set (irc_extract_functions ir) =
     {n \<in> defined_names ir. \<not> startswith n ''llvm.'' \<and> \<not> startswith n ''__''}"
    unfolding irc_extract_functions_fold store_fold_keys defined_names_def skipped_def by auto
  then show "fst ` set (irc_extract_functions ir) = {n \<in> defined_names ir. \<not> startswith n ''__''}"
    using defined_names_words by auto
next
  show "fst ` set (extract_functions ir) = defined_names ir"
    unfolding extract_functions_fold store_fold_keys defined_names_def by simp
next
  show "total_functions (listing_metrics ir) = card (defined_names ir)"
    unfolding listing_metrics_def get_metrics_def Let_def extract_functions_fold defined_names_def
    by (simp add: store_fold_length)
next
  show "total_instructions (listing_metrics ir) =
       sum_list (map (\<lambda>e. length (instructions (snd e))) (extract_functions ir))"
    by (simp add: listing_metrics_def get_metrics_def Let_def comp_def)
qed

text \<open>
  A defined name, and a listing whose only definition is of the intrinsic namespace: both
  collections are empty and both totals are zero.
\<close>

theorem skip_rule_by_tool_witness:
  "''g'' \<in> defined_names (''define void @__f() {}'' @ [newline] @ ''define void @g() {}'')
   \<and> list_all is_word ''g'' \<and> \<not> startswith ''g'' ''llvm.''
   \<and> extract_functions ''define void @llvm.memset() { ret void }'' = []
   \<and> irc_extract_functions ''define void @llvm.memset() { ret void }'' = []
   \<and> total_functions (listing_metrics ''define void @llvm.memset() { ret void }'') = 0
   \<and> total_instructions (listing_metrics ''define void @llvm.memset() { ret void }'') = 0"
proof -
  let ?X = "''define void @__f() {}'' @ [newline] @ ''define void @g() {}''"
  let ?L = "''define void @llvm.memset() { ret void }''"
  have "map (\<lambda>m. group ?X m 2) (rx_finditer func_pattern ?X) = [''__f'', ''g'']" by code_simp
  then have "set (map (\<lambda>m. group ?X m 2) (rx_finditer func_pattern ?X)) = set [''__f'', ''g'']"
    by (rule arg_cong)
  then have h: "''g'' \<in> defined_names ?X"
    unfolding defined_names_def set_map by simp
  have a: "extract_functions ?L = []" by code_simp
  have b: "irc_extract_functions ?L = []" by code_simp
  have c: "defined_names ?L = {}"
    using skip_rule_by_tool[of "''g''" ?L] unfolding a by simp
  from skip_rule_by_tool[of "''g''" ?X] h
  have w: "list_all is_word ''g''" "\<not> startswith ''g'' ''llvm.''" by blast+
  from skip_rule_by_tool[of "''g''" ?L]
  have "total_functions (listing_metrics ?L) = card (defined_names ?L)"
    and "total_instructions (listing_metrics ?L) =
       sum_list (map (\<lambda>e. length (instructions (snd e))) (extract_functions ?L))"
    by blast+
  then have "total_functions (listing_metrics ?L) = 0"
    and "total_instructions (listing_metrics ?L) = 0"
    unfolding a c by simp_all
  with h w a b show ?thesis by blast
qed

end
